theory Spec2Isabelle
  imports Complex_Main
begin

section \<open>Double-precision numbers\<close>

text \<open>
  A JavaScript number is a double. A finite double is modelled by the real number it
  denotes, and an operation of the source whose rounding matters by the exact operation
  followed by \<open>round64\<close>: \<open>round64 x\<close> is the finite double nearest to the real number
  \<open>x\<close>, ties to the even mantissa (\<open>rne\<close> is that rounding to an integer). Near \<open>x\<close> the
  doubles are the multiples of \<open>2^e\<close>, where \<open>e\<close> is the binary exponent of \<open>x\<close> less 52
  and not below \<open>-1074\<close>, the spacing of the subnormal numbers. Overflow to an infinity
  is not modelled.
\<close>

definition rne :: "real \<Rightarrow> int" where
  "rne z =
     (let f = \<lfloor>z\<rfloor>;
          d = z - of_int f
      in if d < 1 / 2 then f else if 1 / 2 < d then f + 1 else if even f then f else f + 1)"

definition round64 :: "real \<Rightarrow> real" where
  "round64 x =
     (if x = 0 then 0
      else (let e = max (\<lfloor>log 2 \<bar>x\<bar>\<rfloor> - 52) (- 1074)
            in of_int (rne (x / 2 powr of_int e)) * 2 powr of_int e))"


section \<open>Controls module (src/js/controls.js)\<close>

text \<open>
  The numbers of the controls module (angles, gravity components, configuration
  constants) are doubles, modelled by their real values. The smoothing step of
  \<open>update\<close> is modelled with its rounding; the remaining arithmetic of the module is
  written exactly. The DOM (joystick element, control indicator) is outside the model;
  the handlers' writes to it are left out.
\<close>

datatype control_method = TILT | TOUCH | KEYBOARD

record vec =
  vx :: real
  vy :: real

record keys_state =
  left :: bool
  right :: bool
  up :: bool
  down :: bool

record touch_state =
  active :: bool
  startX :: real
  startY :: real
  currentX :: real
  currentY :: real

record controls =
  gravity :: vec
  rawGravity :: vec
  activeMethod :: control_method
  hasDeviceOrientation :: bool
  hasTouch :: bool
  calibration :: vec
  initialized :: bool
  keys :: keys_state
  touch :: touch_state
  isLandscape :: bool

text \<open>\<open>CONTROL_CONFIG\<close> is defined outside the two source files; it is a parameter.\<close>

record control_config =
  deadZone :: real
  maxTiltAngle :: real
  tiltSensitivity :: real
  smoothing :: real
  joystickRadius :: real

text \<open>A \<open>DeviceOrientationEvent\<close>: an angle the sensor did not provide is \<open>null\<close> (\<open>None\<close>).\<close>

record orientation_event =
  gamma :: "real option"
  beta :: "real option"

definition clamp_tilt :: "control_config \<Rightarrow> real \<Rightarrow> real" where
  "clamp_tilt cfg t = max (- maxTiltAngle cfg) (min (maxTiltAngle cfg) t)"

definition dead_zone :: "control_config \<Rightarrow> real \<Rightarrow> real" where
  "dead_zone cfg t = (if \<bar>t\<bar> < deadZone cfg then 0 else t)"

definition handleDeviceOrientation ::
  "control_config \<Rightarrow> orientation_event \<Rightarrow> controls \<Rightarrow> controls" where
  "handleDeviceOrientation cfg event c =
     (case gamma event of
        None \<Rightarrow> c
      | Some g \<Rightarrow>
         (case beta event of
            None \<Rightarrow> c
          | Some b \<Rightarrow>
             (let c1 = (if activeMethod c \<noteq> TILT then c\<lparr>activeMethod := TILT\<rparr> else c);
                  tiltX0 = (if isLandscape c1 then b else g);
                  tiltY0 = (if isLandscape c1 then - g else b);
                  tiltX1 = tiltX0 - vx (calibration c1);
                  tiltY1 = tiltY0 - vy (calibration c1);
                  tiltX2 = dead_zone cfg tiltX1;
                  tiltY2 = dead_zone cfg tiltY1;
                  tiltX3 = clamp_tilt cfg tiltX2;
                  tiltY3 = clamp_tilt cfg tiltY2
              in c1\<lparr>rawGravity :=
                      \<lparr>vx = (tiltX3 / maxTiltAngle cfg) * tiltSensitivity cfg,
                       vy = (tiltY3 / maxTiltAngle cfg) * tiltSensitivity cfg\<rparr>\<rparr>)))"

definition keyboardActive :: "controls \<Rightarrow> bool" where
  "keyboardActive c =
     (left (keys c) \<or> right (keys c) \<or> up (keys c) \<or> down (keys c))"

definition key_raw :: "control_config \<Rightarrow> keys_state \<Rightarrow> vec" where
  "key_raw cfg k =
     (let x0 = 0;
          y0 = 0;
          x1 = (if left k then x0 - tiltSensitivity cfg else x0);
          x2 = (if right k then x1 + tiltSensitivity cfg else x1);
          y1 = (if up k then y0 - tiltSensitivity cfg else y0);
          y2 = (if down k then y1 + tiltSensitivity cfg else y1)
      in \<lparr>vx = x2, vy = y2\<rparr>)"

text \<open>
  \<open>update()\<close>. The keyboard contributions \<open>0 - s\<close> and \<open>-s + s\<close> are exact in doubles.
  The statement \<open>gravity.x += (rawGravity.x - gravity.x) * smoothing\<close> is a subtraction,
  a product and a sum, each rounded to a double. In the test
  \<open>Math.abs(gravity.x) < 0.001\<close> the constant is the double nearest to \<open>1/1000\<close>; it
  lies above \<open>1/1000\<close> with no double in between, so a double is below the one exactly
  when it is below the other.
\<close>

definition snap :: "real \<Rightarrow> real" where
  "snap g = (if \<bar>g\<bar> < 1 / 1000 then 0 else g)"

definition update :: "control_config \<Rightarrow> controls \<Rightarrow> controls" where
  "update cfg c =
     (let c1 = (if keyboardActive c
                then (if activeMethod c \<noteq> KEYBOARD then c\<lparr>activeMethod := KEYBOARD\<rparr> else c)
                       \<lparr>rawGravity := key_raw cfg (keys c)\<rparr>
                else if activeMethod c = KEYBOARD
                then c\<lparr>rawGravity := \<lparr>vx = 0, vy = 0\<rparr>\<rparr>
                else c);
          gx = round64 (vx (gravity c1)
                 + round64 (round64 (vx (rawGravity c1) - vx (gravity c1)) * smoothing cfg));
          gy = round64 (vy (gravity c1)
                 + round64 (round64 (vy (rawGravity c1) - vy (gravity c1)) * smoothing cfg))
      in c1\<lparr>gravity := \<lparr>vx = snap gx, vy = snap gy\<rparr>\<rparr>)"

definition calibrate :: "control_config \<Rightarrow> controls \<Rightarrow> controls" where
  "calibrate cfg c =
     c\<lparr>calibration :=
         \<lparr>vx = vx (rawGravity c) / tiltSensitivity cfg * maxTiltAngle cfg,
          vy = vy (rawGravity c) / tiltSensitivity cfg * maxTiltAngle cfg\<rparr>\<rparr>"

definition reset :: "controls \<Rightarrow> controls" where
  "reset c =
     c\<lparr>gravity := \<lparr>vx = 0, vy = 0\<rparr>,
       rawGravity := \<lparr>vx = 0, vy = 0\<rparr>,
       keys := \<lparr>left = False, right = False, up = False, down = False\<rparr>,
       touch := (touch c)\<lparr>active := False\<rparr>\<rparr>"

text \<open>\<open>frames cfg n c\<close>: the state after \<open>n\<close> calls of \<open>update\<close> with no event in between.\<close>

fun frames :: "control_config \<Rightarrow> nat \<Rightarrow> controls \<Rightarrow> controls" where
  "frames cfg 0 c = c"
| "frames cfg (Suc n) c = frames cfg n (update cfg c)"


section \<open>Maze module (src/js/maze.js)\<close>

datatype cell = WALL | PATH | ENTRY | EXIT

record direction =
  dx :: int
  dy :: int
  dname :: string

definition DIRECTIONS :: "direction list" where
  "DIRECTIONS =
     [\<lparr>dx = 0, dy = -1, dname = ''up''\<rparr>,
      \<lparr>dx = 1, dy = 0, dname = ''right''\<rparr>,
      \<lparr>dx = 0, dy = 1, dname = ''down''\<rparr>,
      \<lparr>dx = -1, dy = 0, dname = ''left''\<rparr>]"

subsection \<open>SeededRandom\<close>

text \<open>
  The seed is a JavaScript number holding an integer. The product
  \<open>seed * 1103515245\<close> and the sum with \<open>12345\<close> are double-precision operations:
  each yields the double nearest to the exact integer result, ties to the even
  mantissa. \<open>round53\<close> is that rounding on integers: an integer below \<open>2^53\<close> in
  magnitude is a double; a larger one keeps its 53 leading bits. \<open>excess_bits m\<close> is the
  number of low bits a magnitude \<open>m\<close> loses. The operator \<open>& 0x7fffffff\<close> converts the
  double to a 32-bit integer (its value modulo \<open>2^32\<close>) and keeps the low 31 bits: the
  value modulo \<open>2^31\<close>.
\<close>

function excess_bits :: "int \<Rightarrow> nat" where
  "excess_bits m = (if m < 9007199254740992 then 0 else Suc (excess_bits (m div 2)))"
  by pat_completeness auto
termination
  by (relation "measure nat") auto

declare excess_bits.simps [simp del]

definition round53 :: "int \<Rightarrow> int" where
  "round53 n =
     (let m = \<bar>n\<bar>;
          e = excess_bits m;
          q = m div 2 ^ e;
          r = m mod 2 ^ e;
          q' = (if 2 ^ e < 2 * r \<or> (2 * r = 2 ^ e \<and> odd q) then q + 1 else q)
      in sgn n * (q' * 2 ^ e))"

record SeededRandom =
  seed :: int

definition next_seed :: "int \<Rightarrow> int" where
  "next_seed s = round53 (round53 (s * 1103515245) + 12345) mod 2147483648"

text \<open>
  \<open>next()\<close>: the new seed and the quotient \<open>seed / 0x7fffffff\<close>. The quotient is kept
  exact; the double the source returns is the nearest one to it, which is below 1
  exactly when the quotient is. \<open>nextInt\<close> is called by the shuffle of the four
  directions, with a range of 2, 3 or 4: the exact product of the quotient and the
  range is an integer only for the seeds \<open>0\<close> and \<open>0x7fffffff\<close>, where the doubles are
  exact, and otherwise lies at least \<open>1/0x7fffffff\<close> from every integer, so the floor of
  the double product is the floor of the exact one.
\<close>

definition rng_next :: "'a SeededRandom_scheme \<Rightarrow> real \<times> 'a SeededRandom_scheme" where
  "rng_next g =
     (let g' = g\<lparr>seed := next_seed (seed g)\<rparr>
      in (real_of_int (seed g') / 2147483647, g'))"

definition nextInt ::
  "int \<Rightarrow> int \<Rightarrow> 'a SeededRandom_scheme \<Rightarrow> int \<times> 'a SeededRandom_scheme" where
  "nextInt mn mx g =
     (let (r, g') = rng_next g in (\<lfloor>r * real_of_int (mx - mn)\<rfloor> + mn, g'))"

text \<open>
  \<open>[result[i], result[j]] = [result[j], result[i]]\<close> on a JavaScript array: reading
  an index outside the array gives \<open>undefined\<close> (\<open>None\<close>), writing at or beyond its
  length extends it, the gap filled with \<open>undefined\<close>; a negative index is no element.
\<close>

definition js_swap :: "nat \<Rightarrow> int \<Rightarrow> 'a option list \<Rightarrow> 'a option list" where
  "js_swap i j xs =
     (let a = xs ! i;
          b = (if 0 \<le> j \<and> nat j < length xs then xs ! nat j else None);
          ys = xs[i := b]
      in if j < 0 then ys
         else if nat j < length ys then ys[nat j := a]
         else ys @ replicate (nat j - length ys) None @ [a])"

text \<open>The loop \<open>for (i = result.length - 1; i > 0; i--)\<close>, at \<open>i = Suc k\<close>.\<close>

fun shuffle_loop ::
  "nat \<Rightarrow> 'a option list \<Rightarrow> 'b SeededRandom_scheme
     \<Rightarrow> 'a option list \<times> 'b SeededRandom_scheme" where
  "shuffle_loop 0 xs g = (xs, g)"
| "shuffle_loop (Suc k) xs g =
     (let (j, g') = nextInt 0 (int (Suc k) + 1) g
      in shuffle_loop k (js_swap (Suc k) j xs) g')"

definition shuffle ::
  "'a list \<Rightarrow> 'b SeededRandom_scheme \<Rightarrow> 'a option list \<times> 'b SeededRandom_scheme" where
  "shuffle array g = shuffle_loop (length array - 1) (map Some array) g"

text \<open>\<open>draws n g\<close>: the outputs of \<open>n\<close> successive calls of \<open>next()\<close>.\<close>

fun draws :: "nat \<Rightarrow> 'a SeededRandom_scheme \<Rightarrow> real list \<times> 'a SeededRandom_scheme" where
  "draws 0 g = ([], g)"
| "draws (Suc n) g =
     (let (r, g1) = rng_next g;
          (rs, g2) = draws n g1
      in (r # rs, g2))"

subsection \<open>MazeGenerator\<close>

text \<open>
  The grid is the array of rows: \<open>grid[y][x]\<close>. Every index the source computes lies
  inside the grid (the guard of \<open>_carve\<close> bounds \<open>nx\<close> and \<open>ny\<close>, the other accesses
  are at rows \<open>0\<close>, \<open>1\<close>, \<open>rows - 2\<close>, \<open>rows - 1\<close> and at columns between \<open>0\<close> and
  \<open>cols - 1\<close>); the lemmas on \<open>grid_ok\<close> below establish it.
\<close>

type_synonym grid = "cell list list"

definition cell_at :: "grid \<Rightarrow> int \<Rightarrow> int \<Rightarrow> cell" where
  "cell_at g x y = g ! nat y ! nat x"

definition set_cell :: "grid \<Rightarrow> int \<Rightarrow> int \<Rightarrow> cell \<Rightarrow> grid" where
  "set_cell g x y v = g[nat y := (g ! nat y)[nat x := v]]"

text \<open>
  \<open>TypeError\<close>: \<open>dir.dx\<close> on an \<open>undefined\<close> element of the shuffled array.
  \<open>OutOfFuel\<close>: the recursion of \<open>_carve\<close> went deeper than the bound the model
  gives it (lemma \<open>init_fuel\<close>: it never does).
\<close>

datatype maze_error = TypeError | OutOfFuel

record exit_zone =
  zone_x :: real
  zone_y :: int
  zone_width :: real
  zone_height :: real
  score :: int
  color :: string
  label :: string
  column :: int

record wall_rect =
  rect_x :: int
  rect_y :: int
  rect_width :: int
  rect_height :: int
  rect_isWall :: bool

record maze =
  grid :: grid
  cols :: int
  rows :: int
  cellSize :: int
  wallThickness :: int
  level :: int
  rng :: SeededRandom
  exitZones :: "exit_zone list"
  wallRects :: "wall_rect list"
  entryX :: real
  entryY :: real
  width :: int
  height :: int
  exitColumns :: "int list"

text \<open>\<open>EXIT_CONFIG\<close> is defined outside the two source files; it is a parameter.\<close>

record exit_config =
  zoneHeight :: real

text \<open>
  \<open>_carve(x, y)\<close> with a bound on the recursion depth; \<open>carve_dirs\<close> is its loop
  \<open>for (const dir of directions)\<close> over the rest of the shuffled array.
\<close>

fun carve ::
  "nat \<Rightarrow> int \<Rightarrow> int \<Rightarrow> int \<Rightarrow> int \<Rightarrow> grid \<times> SeededRandom
     \<Rightarrow> maze_error + grid \<times> SeededRandom"
and carve_dirs ::
  "nat \<Rightarrow> int \<Rightarrow> int \<Rightarrow> int \<Rightarrow> int \<Rightarrow> direction option list \<Rightarrow> grid \<times> SeededRandom
     \<Rightarrow> maze_error + grid \<times> SeededRandom" where
  "carve 0 c r x y st = Inl OutOfFuel"
| "carve (Suc n) c r x y (g, rg) =
     (let g1 = set_cell g x y PATH;
          (directions, rg1) = shuffle DIRECTIONS rg
      in carve_dirs n c r x y directions (g1, rg1))"
| "carve_dirs n c r x y [] st = Inr st"
| "carve_dirs n c r x y (None # ds) st = Inl TypeError"
| "carve_dirs n c r x y (Some d # ds) (g, rg) =
     (let nx = x + dx d * 2;
          ny = y + dy d * 2
      in if nx > 0 \<and> nx < c - 1 \<and> ny > 0 \<and> ny < r - 1 \<and> cell_at g nx ny = WALL
         then (case carve n c r nx ny (set_cell g (x + dx d) (y + dy d) PATH, rg) of
                 Inl e \<Rightarrow> Inl e
               | Inr st' \<Rightarrow> carve_dirs n c r x y ds st')
         else carve_dirs n c r x y ds (g, rg))"

definition generateMaze :: "maze \<Rightarrow> maze_error + maze" where
  "generateMaze m =
     (let g0 = replicate (nat (rows m)) (replicate (nat (cols m)) WALL);
          startX = cols m div 2;
          startY = 1;
          actualStartX = (if startX mod 2 = 0 then startX + 1 else startX)
      in case carve (nat (cols m * rows m)) (cols m) (rows m) actualStartX startY (g0, rng m) of
           Inl e \<Rightarrow> Inl e
         | Inr (g, rg) \<Rightarrow> Inr (m\<lparr>grid := g, rng := rg\<rparr>))"

definition exitPositions :: "real list" where
  "exitPositions = [1 / 10, 3 / 10, 5 / 10, 7 / 10, 9 / 10]"

text \<open>
  The scan \<open>for (x = 1; x < cols - 1; x++)\<close> for the nearest path cell of the
  second-to-last row: the accumulator is \<open>(bestCol, minDist)\<close>, \<open>minDist\<close> starting at
  \<open>Infinity\<close> (\<open>None\<close>).
\<close>

definition nearest_step ::
  "grid \<Rightarrow> int \<Rightarrow> int \<Rightarrow> int \<Rightarrow> int \<times> int option \<Rightarrow> int \<times> int option" where
  "nearest_step g row targetCol x acc =
     (if cell_at g x row = PATH
      then (let dist = \<bar>x - targetCol\<bar>
            in if (case snd acc of None \<Rightarrow> True | Some minDist \<Rightarrow> dist < minDist)
               then (x, Some dist) else acc)
      else acc)"

definition nearest_path :: "grid \<Rightarrow> int \<Rightarrow> int \<Rightarrow> int \<Rightarrow> int" where
  "nearest_path g c r targetCol =
     fst (fold (nearest_step g (r - 2) targetCol) [1..c - 2] (targetCol, None))"

text \<open>
  One round of \<open>for (const pos of exitPositions)\<close>, on the grid and \<open>exitColumns\<close>.
  With an odd number of columns \<open>pos * cols\<close> is an odd number of tenths, at least a
  tenth away from every integer, so the floor of the double product is the floor of the
  exact one.
\<close>

definition place_exit :: "int \<Rightarrow> int \<Rightarrow> real \<Rightarrow> grid \<times> int list \<Rightarrow> grid \<times> int list" where
  "place_exit c r pos acc =
     (let targetCol = \<lfloor>pos * real_of_int c\<rfloor>;
          bestCol = nearest_path (fst acc) c r targetCol
      in (set_cell (fst acc) bestCol (r - 1) EXIT, snd acc @ [bestCol]))"

text \<open>The loop \<open>for (y = rows - 2; y >= 0; y--)\<close> that carves upward to a path cell.\<close>

function carve_up :: "grid \<Rightarrow> int \<Rightarrow> int \<Rightarrow> grid" where
  "carve_up g col y =
     (if y < 0 then g
      else if cell_at g col y = PATH then g
      else carve_up (set_cell g col y PATH) col (y - 1))"
  by pat_completeness auto
termination
  by (relation "measure (\<lambda>(g, col, y). nat (y + 1))") auto

declare carve_up.simps [simp del]

definition connect_exit :: "int \<Rightarrow> int \<Rightarrow> grid \<Rightarrow> grid" where
  "connect_exit r col g =
     (if cell_at g col (r - 2) = WALL then carve_up g col (r - 2) else g)"

definition createEntryAndExits :: "maze \<Rightarrow> maze" where
  "createEntryAndExits m =
     (let centerX = cols m div 2;
          g1 = set_cell (grid m) centerX 0 ENTRY;
          g2 = set_cell g1 centerX 1 PATH;
          (g3, exitCols) = fold (place_exit (cols m) (rows m)) exitPositions (g2, []);
          g4 = fold (connect_exit (rows m)) exitCols g3
      in m\<lparr>grid := g4, exitColumns := exitCols\<rparr>)"

definition exitScores :: "(int \<times> string \<times> string) list" where
  "exitScores =
     [(500, ''#4ade80'', ''500''),
      (100, ''#60a5fa'', ''100''),
      (1000, ''#facc15'', ''1000''),
      (0, ''#94a3b8'', ''0''),
      (250, ''#f472b6'', ''250'')]"

text \<open>
  The zone pushed at index \<open>i\<close>. The zone width \<open>width / 5\<close> and the zone origin
  \<open>i * zoneWidth\<close> are rounded to doubles. \<open>this.exitColumns[i] || d\<close> takes the
  default \<open>d\<close> when the column is missing or is \<open>0\<close>.
\<close>

definition exit_zone_at :: "exit_config \<Rightarrow> maze \<Rightarrow> nat \<Rightarrow> exit_zone" where
  "exit_zone_at ecfg m i =
     (let zoneWidth = round64 (real_of_int (width m) / 5);
          zoneX = round64 (real i * zoneWidth)
      in \<lparr>zone_x = zoneX,
          zone_y = height m,
          zone_width = zoneWidth,
          zone_height = zoneHeight ecfg,
          score = fst (exitScores ! i),
          color = fst (snd (exitScores ! i)),
          label = snd (snd (exitScores ! i)),
          column = (if i < length (exitColumns m) \<and> exitColumns m ! i \<noteq> 0
                    then exitColumns m ! i
                    else \<lfloor>(real i + 1 / 2) * real_of_int (cols m) / 5\<rfloor>)\<rparr>)"


definition buildExitZones :: "exit_config \<Rightarrow> maze \<Rightarrow> maze" where
  "buildExitZones ecfg m = m\<lparr>exitZones := map (exit_zone_at ecfg m) [0..<5]\<rparr>"

definition buildWallRects :: "maze \<Rightarrow> maze" where
  "buildWallRects m =
     m\<lparr>wallRects :=
         concat (map (\<lambda>y. concat (map (\<lambda>x.
           if cell_at (grid m) x y = WALL
           then [\<lparr>rect_x = x * cellSize m, rect_y = y * cellSize m,
                  rect_width = cellSize m, rect_height = cellSize m,
                  rect_isWall = True\<rparr>]
           else []) [0..cols m - 1])) [0..rows m - 1])\<rparr>"

text \<open>
  \<open>init(level, canvasWidth, canvasHeight)\<close> on the generator \<open>m\<close>; \<open>now\<close> is the value
  \<open>Date.now()\<close> returns, an integer number of milliseconds. The subtractions and the
  quotients that give the cell size are rounded to doubles. The cell size is an integer,
  and so are the products \<open>cols * cellSize\<close> and \<open>rows * cellSize\<close>; they are exact in
  doubles as long as they are below \<open>2^53\<close>. \<open>width / 2\<close> and \<open>cellSize * 1.5\<close> are
  exact in that range too.
\<close>

definition init ::
  "exit_config \<Rightarrow> int \<Rightarrow> maze \<Rightarrow> int \<Rightarrow> real \<Rightarrow> real \<Rightarrow> maze_error + maze" where
  "init ecfg now m lvl canvasWidth canvasHeight =
     (let cols0 = 11 + (lvl div 2) * 2;
          rows0 = 13 + (lvl div 3) * 2;
          cols1 = (if cols0 mod 2 = 0 then cols0 + 1 else cols0);
          rows1 = (if rows0 mod 2 = 0 then rows0 + 1 else rows0);
          exitZoneHeight = zoneHeight ecfg;
          availableHeight = round64 (round64 (canvasHeight - exitZoneHeight) - 40);
          cellSize0 = \<lfloor>min (round64 (round64 (canvasWidth - 40) / real_of_int cols1))
                           (round64 (availableHeight / real_of_int rows1))\<rfloor>;
          cellSize1 = max cellSize0 20;
          m1 = m\<lparr>level := lvl, cols := cols1, rows := rows1, cellSize := cellSize1,
                 width := cols1 * cellSize1, height := rows1 * cellSize1,
                 rng := \<lparr>seed = now\<rparr>\<rparr>
      in case generateMaze m1 of
           Inl e \<Rightarrow> Inl e
         | Inr m2 \<Rightarrow>
            (let m3 = buildWallRects (buildExitZones ecfg (createEntryAndExits m2))
             in Inr (m3\<lparr>entryX := real_of_int (width m3) / 2,
                        entryY := real_of_int (cellSize m3) * (3 / 2)\<rparr>)))"

text \<open>
  \<open>isWall(pixelX, pixelY)\<close>. The two quotients are double-precision divisions
  (\<open>round64\<close>); the first claim about \<open>isWall\<close> turns on their rounding. A quotient of
  magnitude below \<open>2^-1075\<close> rounds to zero. JavaScript keeps the sign of such a zero, and
  \<open>Math.floor\<close> returns it as it is, but \<open>-0 < 0\<close> is false and \<open>grid[-0]\<close> is
  \<open>grid[0]\<close>: the code treats both zeros alike, and the real number \<open>0\<close> stands for
  either. The pixel coordinates are finite doubles, so the quotients do not overflow.
\<close>

definition isWall :: "maze \<Rightarrow> real \<Rightarrow> real \<Rightarrow> bool" where
  "isWall m x y =
     (let col = \<lfloor>round64 (x / real_of_int (cellSize m))\<rfloor>;
          row = \<lfloor>round64 (y / real_of_int (cellSize m))\<rfloor>
      in if col < 0 \<or> col \<ge> cols m \<or> row < 0 \<or> row \<ge> rows m then True
         else cell_at (grid m) col row = WALL)"

text \<open>The generator the constructor leaves.\<close>

definition new_maze :: maze where
  "new_maze =
     \<lparr>grid = [], cols = 15, rows = 15, cellSize = 30, wallThickness = 4, level = 1,
      rng = \<lparr>seed = 0\<rparr>, exitZones = [], wallRects = [], entryX = 0, entryY = 0,
      width = 0, height = 0, exitColumns = []\<rparr>"

subsection \<open>Reachability in a grid\<close>

text \<open>
  \<open>cells g\<close> reads the grid as a partial map from coordinates \<open>(x, y)\<close> to cells.
  A cell is passable when it is Path, Entry or Exit. \<open>flood g start\<close> is the set a
  flood fill from \<open>start\<close> over passable cells marks: it moves between cells that
  share an edge.
\<close>

definition cells :: "grid \<Rightarrow> int \<times> int \<Rightarrow> cell option" where
  "cells g p =
     (if 0 \<le> snd p \<and> nat (snd p) < length g \<and> 0 \<le> fst p \<and> nat (fst p) < length (g ! nat (snd p))
      then Some (cell_at g (fst p) (snd p)) else None)"

definition passable :: "grid \<Rightarrow> int \<times> int \<Rightarrow> bool" where
  "passable g p = (cells g p = Some PATH \<or> cells g p = Some ENTRY \<or> cells g p = Some EXIT)"

definition adjacent :: "int \<times> int \<Rightarrow> int \<times> int \<Rightarrow> bool" where
  "adjacent p q = (\<bar>fst p - fst q\<bar> + \<bar>snd p - snd q\<bar> = 1)"

inductive_set flood :: "grid \<Rightarrow> int \<times> int \<Rightarrow> (int \<times> int) set" for g :: grid and start :: "int \<times> int" where
  flood_start: "passable g start \<Longrightarrow> start \<in> flood g start"
| flood_step: "p \<in> flood g start \<Longrightarrow> adjacent p q \<Longrightarrow> passable g q \<Longrightarrow> q \<in> flood g start"



section \<open>Inputs used in the examples\<close>

definition sample_config :: control_config where
  "sample_config =
     \<lparr>deadZone = 2, maxTiltAngle = 30, tiltSensitivity = 1, smoothing = 3/20,
      joystickRadius = 50\<rparr>"

definition config_with_smoothing :: "real \<Rightarrow> control_config" where
  "config_with_smoothing s =
     \<lparr>deadZone = 2, maxTiltAngle = 30, tiltSensitivity = 1, smoothing = s,
      joystickRadius = 50\<rparr>"

text \<open>Tilt is active with a nonzero raw vector, and both left and right are held.\<close>

definition tilt_state :: controls where
  "tilt_state =
     \<lparr>gravity = \<lparr>vx = 1/4, vy = 0\<rparr>, rawGravity = \<lparr>vx = 1/2, vy = -1/2\<rparr>,
      activeMethod = TILT, hasDeviceOrientation = True, hasTouch = True,
      calibration = \<lparr>vx = 0, vy = 0\<rparr>, initialized = True,
      keys = \<lparr>left = True, right = True, up = False, down = False\<rparr>,
      touch = \<lparr>active = False, startX = 0, startY = 0, currentX = 0, currentY = 0\<rparr>,
      isLandscape = False\<rparr>"

text \<open>A device held in portrait, at rest, with calibration offset \<open>cal\<close>.\<close>

definition portrait_state :: "vec \<Rightarrow> controls" where
  "portrait_state cal =
     \<lparr>gravity = \<lparr>vx = 0, vy = 0\<rparr>, rawGravity = \<lparr>vx = 0, vy = 0\<rparr>,
      activeMethod = TILT, hasDeviceOrientation = True, hasTouch = True,
      calibration = cal, initialized = True,
      keys = \<lparr>left = False, right = False, up = False, down = False\<rparr>,
      touch = \<lparr>active = False, startX = 0, startY = 0, currentX = 0, currentY = 0\<rparr>,
      isLandscape = False\<rparr>"

text \<open>
  \<open>raw_held cfg c\<close>: the raw vector is \<open>(1, 0)\<close> and every \<open>update\<close> leaves it there:
  either no key is held and the active source is not the keyboard (so \<open>update\<close> does
  not write the raw vector), or the held keys themselves give \<open>(1, 0)\<close>.
\<close>

definition raw_held :: "control_config \<Rightarrow> controls \<Rightarrow> bool" where
  "raw_held cfg c =
     (rawGravity c = \<lparr>vx = 1, vy = 0\<rparr>
      \<and> (if keyboardActive c then key_raw cfg (keys c) = \<lparr>vx = 1, vy = 0\<rparr>
         else activeMethod c \<noteq> KEYBOARD))"

definition held_state :: controls where
  "held_state =
     \<lparr>gravity = \<lparr>vx = 0, vy = 0\<rparr>, rawGravity = \<lparr>vx = 1, vy = 0\<rparr>,
      activeMethod = TILT, hasDeviceOrientation = True, hasTouch = True,
      calibration = \<lparr>vx = 0, vy = 0\<rparr>, initialized = True,
      keys = \<lparr>left = False, right = False, up = False, down = False\<rparr>,
      touch = \<lparr>active = False, startX = 0, startY = 0, currentX = 0, currentY = 0\<rparr>,
      isLandscape = False\<rparr>"

text \<open>
  \<open>smooth_step s g\<close>: what one \<open>update\<close> makes of gravity.x \<open>= g\<close> when the raw x is
  \<open>1\<close> and the smoothing factor is \<open>s\<close>.
\<close>

definition smooth_step :: "real \<Rightarrow> real \<Rightarrow> real" where
  "smooth_step s g = snap (round64 (g + round64 (round64 (1 - g) * s)))"

section \<open>Notions used in the proofs about the maze\<close>

text \<open>
  \<open>inb\<close>: a coordinate inside a grid of \<open>c\<close> columns and \<open>r\<close> rows; \<open>interior\<close>: strictly
  inside its outer ring, the bounds test of \<open>_carve\<close>. \<open>grid_ok\<close>: the grid has
  \<open>r\<close> rows of \<open>c\<close> cells.
\<close>

definition inb :: "int \<Rightarrow> int \<Rightarrow> int \<times> int \<Rightarrow> bool" where
  "inb c r p = (0 \<le> fst p \<and> fst p < c \<and> 0 \<le> snd p \<and> snd p < r)"

definition interior :: "int \<Rightarrow> int \<Rightarrow> int \<times> int \<Rightarrow> bool" where
  "interior c r p = (0 < fst p \<and> fst p < c - 1 \<and> 0 < snd p \<and> snd p < r - 1)"

definition grid_ok :: "int \<Rightarrow> int \<Rightarrow> grid \<Rightarrow> bool" where
  "grid_ok c r g = (length g = nat r \<and> (\<forall>i < nat r. length (g ! i) = nat c))"

text \<open>\<open>carved c r g g'\<close>: \<open>g'\<close> is \<open>g\<close> with some of its cells turned to Path.\<close>

definition carved :: "int \<Rightarrow> int \<Rightarrow> grid \<Rightarrow> grid \<Rightarrow> bool" where
  "carved c r g g' =
     (grid_ok c r g' \<and> (\<forall>p. cells g' p = cells g p \<or> (cells g' p = Some PATH \<and> cells g p \<noteq> None)))"

text \<open>\<open>conn g\<close>: a flood fill from any passable cell reaches every passable cell.\<close>

definition conn :: "grid \<Rightarrow> bool" where
  "conn g = (\<forall>p q. passable g p \<longrightarrow> passable g q \<longrightarrow> q \<in> flood g p)"

text \<open>
  \<open>unit_dirs\<close>: the defined elements of a shuffled array are directions of \<open>DIRECTIONS\<close>.
  \<open>attach g a\<close>: opening the cell \<open>a\<close> keeps the passable cells connected: it is passable
  already, or it has a passable neighbour, or nothing is passable yet.
\<close>

definition unit_dirs :: "direction option list \<Rightarrow> bool" where
  "unit_dirs ds = (\<forall>d. Some d \<in> set ds \<longrightarrow> d \<in> set DIRECTIONS)"

definition attach :: "grid \<Rightarrow> int \<times> int \<Rightarrow> bool" where
  "attach g a = (passable g a \<or> (\<exists>q. passable g q \<and> adjacent a q) \<or> (\<forall>q. \<not> passable g q))"

text \<open>
  The carve visits the cells with both coordinates odd (\<open>node\<close>). A node is \<open>settled\<close> once
  each of its neighbours two steps away that is \<open>interior\<close> is passable, which is the state
  the loop of \<open>_carve\<close> leaves the node in; a passable node not yet settled is \<open>pending\<close>.
\<close>

definition node :: "int \<times> int \<Rightarrow> bool" where
  "node p = (odd (fst p) \<and> odd (snd p))"

definition settled :: "int \<Rightarrow> int \<Rightarrow> grid \<Rightarrow> int \<times> int \<Rightarrow> bool" where
  "settled c r g p =
     (\<forall>d \<in> set DIRECTIONS. interior c r (fst p + dx d * 2, snd p + dy d * 2)
         \<longrightarrow> passable g (fst p + dx d * 2, snd p + dy d * 2))"

definition pending :: "int \<Rightarrow> int \<Rightarrow> grid \<Rightarrow> int \<times> int \<Rightarrow> bool" where
  "pending c r g p = (node p \<and> passable g p \<and> \<not> settled c r g p)"

text \<open>The Wall cells of a grid: their number bounds the depth of the recursion.\<close>

definition walls :: "grid \<Rightarrow> (int \<times> int) set" where
  "walls g = {p. cells g p = Some WALL}"


section \<open>A generated maze\<close>

text \<open>
  Level 1 on an 800 by 600 canvas with an exit strip of height 60, started at the clock
  value 1700000000000. \<open>example_carved\<close> is the grid the carve leaves, \<open>example_grid\<close> the
  grid after the entry and the exits are placed.
\<close>

definition example_exit_config :: exit_config where
  "example_exit_config = \<lparr>zoneHeight = 60\<rparr>"

definition example_run :: "maze_error + maze" where
  "example_run = init example_exit_config 1700000000000 new_maze 1 800 600"


definition example_carved :: grid where
  "example_carved =
     [[WALL, WALL, WALL, WALL, WALL, WALL, WALL, WALL, WALL, WALL, WALL],
      [WALL, PATH, PATH, PATH, WALL, PATH, PATH, PATH, WALL, PATH, WALL],
      [WALL, PATH, WALL, PATH, WALL, WALL, WALL, PATH, WALL, PATH, WALL],
      [WALL, PATH, WALL, PATH, PATH, PATH, WALL, PATH, PATH, PATH, WALL],
      [WALL, PATH, WALL, WALL, WALL, PATH, WALL, WALL, WALL, PATH, WALL],
      [WALL, PATH, PATH, PATH, WALL, PATH, PATH, PATH, WALL, PATH, WALL],
      [WALL, WALL, WALL, PATH, WALL, WALL, WALL, PATH, WALL, PATH, WALL],
      [WALL, PATH, PATH, PATH, PATH, PATH, WALL, PATH, WALL, PATH, WALL],
      [WALL, PATH, WALL, WALL, WALL, WALL, WALL, PATH, WALL, PATH, WALL],
      [WALL, PATH, WALL, PATH, WALL, PATH, PATH, PATH, WALL, PATH, WALL],
      [WALL, PATH, WALL, PATH, WALL, PATH, WALL, WALL, WALL, PATH, WALL],
      [WALL, PATH, PATH, PATH, WALL, PATH, PATH, PATH, PATH, PATH, WALL],
      [WALL, WALL, WALL, WALL, WALL, WALL, WALL, WALL, WALL, WALL, WALL]]"

definition example_grid :: grid where
  "example_grid =
     [[WALL, WALL, WALL, WALL, WALL, ENTRY, WALL, WALL, WALL, WALL, WALL],
      [WALL, PATH, PATH, PATH, WALL, PATH, PATH, PATH, WALL, PATH, WALL],
      [WALL, PATH, WALL, PATH, WALL, WALL, WALL, PATH, WALL, PATH, WALL],
      [WALL, PATH, WALL, PATH, PATH, PATH, WALL, PATH, PATH, PATH, WALL],
      [WALL, PATH, WALL, WALL, WALL, PATH, WALL, WALL, WALL, PATH, WALL],
      [WALL, PATH, PATH, PATH, WALL, PATH, PATH, PATH, WALL, PATH, WALL],
      [WALL, WALL, WALL, PATH, WALL, WALL, WALL, PATH, WALL, PATH, WALL],
      [WALL, PATH, PATH, PATH, PATH, PATH, WALL, PATH, WALL, PATH, WALL],
      [WALL, PATH, WALL, WALL, WALL, WALL, WALL, PATH, WALL, PATH, WALL],
      [WALL, PATH, WALL, PATH, WALL, PATH, PATH, PATH, WALL, PATH, WALL],
      [WALL, PATH, WALL, PATH, WALL, PATH, WALL, WALL, WALL, PATH, WALL],
      [WALL, PATH, PATH, PATH, WALL, PATH, PATH, PATH, PATH, PATH, WALL],
      [WALL, EXIT, WALL, EXIT, WALL, EXIT, WALL, EXIT, WALL, EXIT, WALL]]"

section \<open>Properties of the rounding\<close>

lemma rne_of_int: "rne (of_int k) = k"
  by (simp add: rne_def)

lemma rne_cases: "rne z = \<lfloor>z\<rfloor> \<or> rne z = \<lfloor>z\<rfloor> + 1"
  by (simp add: rne_def Let_def)

lemma rne_upper: "real_of_int (rne z) \<le> z + 1 / 2"
  unfolding rne_def Let_def by (auto; linarith)

lemma rne_lower: "z - 1 / 2 \<le> real_of_int (rne z)"
  unfolding rne_def Let_def by (auto; linarith)

lemma rne_mono:
  assumes "z \<le> z'"
  shows "rne z \<le> rne z'"
proof (cases "\<lfloor>z\<rfloor> = \<lfloor>z'\<rfloor>")
  case True
  have "z - of_int \<lfloor>z\<rfloor> \<le> z' - of_int \<lfloor>z\<rfloor>" using assms by simp
  then show ?thesis unfolding rne_def Let_def True[symmetric] by auto
next
  case False
  then have "\<lfloor>z\<rfloor> + 1 \<le> \<lfloor>z'\<rfloor>" using floor_mono[OF assms] by linarith
  moreover have "rne z \<le> \<lfloor>z\<rfloor> + 1" using rne_cases[of z] by linarith
  moreover have "\<lfloor>z'\<rfloor> \<le> rne z'" using rne_cases[of z'] by linarith
  ultimately show ?thesis by linarith
qed

lemma rne_small:
  assumes "\<bar>z\<bar> < 1 / 2"
  shows "rne z = 0"
proof (cases "0 \<le> z")
  case True
  then have "\<lfloor>z\<rfloor> = 0" using assms by (simp add: floor_eq_iff)
  then show ?thesis using assms True by (simp add: rne_def)
next
  case False
  then have "\<lfloor>z\<rfloor> = - 1" using assms by (simp add: floor_eq_iff)
  then show ?thesis using assms False by (simp add: rne_def)
qed

text \<open>Powers of two with an integer exponent.\<close>

lemma p2_add: "2 powr real_of_int (a + b) = 2 powr real_of_int a * 2 powr real_of_int b"
  by (simp add: powr_add)

lemma p2_diff: "2 powr real_of_int a / 2 powr real_of_int b = 2 powr real_of_int (a - b)"
  by (simp add: powr_diff)

lemma p2_nat: "0 \<le> a \<Longrightarrow> 2 powr real_of_int a = real_of_int (2 ^ nat a)"
  by (simp add: powr_realpow flip: powr_realpow)

lemma p2_shift:
  "e = a + int d \<Longrightarrow> 2 powr real_of_int e = 2 powr real_of_int a * real_of_int (2 ^ d)"
  by (simp add: powr_add powr_realpow)

lemma p2_mono: "a \<le> b \<Longrightarrow> 2 powr real_of_int a \<le> 2 powr real_of_int b"
  by simp

lemma floor_log2:
  assumes "0 < x"
  shows "2 powr real_of_int \<lfloor>log 2 x\<rfloor> \<le> x" and "x < 2 powr real_of_int (\<lfloor>log 2 x\<rfloor> + 1)"
  using assms floor_log_eq_powr_iff[where b = 2 and x = x and k = "\<lfloor>log 2 x\<rfloor>"] by simp_all

lemma floor_log2_eq:
  assumes "2 powr real_of_int k \<le> x" and "x < 2 powr real_of_int (k + 1)"
  shows "\<lfloor>log 2 x\<rfloor> = k"
proof -
  have "0 < 2 powr real_of_int k" by simp
  then have "0 < x" using assms(1) by linarith
  then show ?thesis
    using assms floor_log_eq_powr_iff[where b = 2 and x = x and k = k] by simp
qed

text \<open>The shape of a rounded positive number.\<close>

lemma round64_pos:
  assumes "0 < x"
  obtains e n where "e = max (\<lfloor>log 2 x\<rfloor> - 52) (- 1074)" and "n = rne (x / 2 powr real_of_int e)"
    and "round64 x = real_of_int n * 2 powr real_of_int e" and "0 \<le> n" and "n \<le> 2 ^ 53"
    and "- 1074 \<le> e"
proof -
  define e where "e = max (\<lfloor>log 2 x\<rfloor> - 52) (- 1074)"
  define n where "n = rne (x / 2 powr real_of_int e)"
  have r: "round64 x = real_of_int n * 2 powr real_of_int e"
    using assms by (simp add: round64_def e_def n_def Let_def)
  have "rne 0 \<le> n" unfolding n_def using assms by (intro rne_mono) simp
  then have n0: "0 \<le> n" using rne_of_int[of 0] by simp
  have "x < 2 powr real_of_int (\<lfloor>log 2 x\<rfloor> + 1)"
    using assms by (rule floor_log2)
  also have "\<dots> \<le> 2 powr real_of_int (e + 53)" by (intro p2_mono) (simp add: e_def)
  finally have "x / 2 powr real_of_int e \<le> 2 powr real_of_int (e + 53) / 2 powr real_of_int e"
    by (simp add: divide_right_mono)
  also have "\<dots> = real_of_int (2 ^ 53)" unfolding p2_diff by (simp add: p2_nat)
  finally have "n \<le> rne (real_of_int (2 ^ 53))" unfolding n_def by (rule rne_mono)
  then have "n \<le> 2 ^ 53" unfolding rne_of_int .
  moreover have "- 1074 \<le> e" by (simp add: e_def)
  ultimately show ?thesis using that[of e n] e_def n_def r n0 by blast
qed


lemma round64_exact:
  assumes "0 < x" and "x = real_of_int q * 2 powr real_of_int (max (\<lfloor>log 2 x\<rfloor> - 52) (- 1074))"
  shows "round64 x = x"
proof -
  define e where "e = max (\<lfloor>log 2 x\<rfloor> - 52) (- 1074)"
  have x: "x = real_of_int q * 2 powr real_of_int e" using assms(2) unfolding e_def .
  have "real_of_int q * 2 powr real_of_int e / 2 powr real_of_int e = real_of_int q" by simp
  then have "x / 2 powr real_of_int e = real_of_int q" using x by simp
  then have "rne (x / 2 powr real_of_int e) = q" by (simp only: rne_of_int)
  then have "round64 x = real_of_int q * 2 powr real_of_int e"
    using assms(1) by (simp add: round64_def Let_def e_def)
  then show ?thesis using x by simp
qed

lemma round64_rep:
  assumes n0: "0 \<le> n" and n53: "n \<le> 2 ^ 53" and e: "- 1074 \<le> e"
  shows "round64 (real_of_int n * 2 powr real_of_int e) = real_of_int n * 2 powr real_of_int e"
proof (cases "n = 0")
  case True
  then show ?thesis by (simp add: round64_def)
next
  case False
  let ?v = "real_of_int n * 2 powr real_of_int e"
  define j where "j = \<lfloor>log 2 (real_of_int n)\<rfloor>"
  have npos: "0 < real_of_int n" "1 \<le> real_of_int n" using False n0 by simp_all
  have vpos: "0 < ?v" using npos by simp
  have jl: "2 powr real_of_int j \<le> real_of_int n" and ju: "real_of_int n < 2 powr real_of_int (j + 1)"
    unfolding j_def using floor_log2[OF npos(1)] by simp_all
  have "0 \<le> log 2 (real_of_int n)" using npos by simp
  then have j0: "0 \<le> j" by (simp add: j_def)
  have "real_of_int n \<le> 2 powr 53" using n53 by (metis of_int_le_numeral_power_cancel_iff powr_numeral zero_less_numeral numeral_One order_less_imp_le powr_realpow of_nat_numeral)
  then have "log 2 (real_of_int n) \<le> 53" using npos by (simp add: log_le_iff)
  then have j53: "j \<le> 53" unfolding j_def by linarith
  have "2 powr real_of_int (j + e) \<le> ?v" unfolding p2_add using jl by simp
  moreover have "?v < 2 powr real_of_int (j + 1) * 2 powr real_of_int e" using ju by simp
  then have "?v < 2 powr real_of_int (j + e + 1)"
    unfolding p2_add[symmetric] by (simp add: add.commute add.left_commute)
  ultimately have L: "\<lfloor>log 2 ?v\<rfloor> = j + e" by (rule floor_log2_eq)
  show ?thesis
  proof (cases "j \<le> 52")
    case True
    define e' where "e' = max (j + e - 52) (- 1074)"
    define d where "d = nat (e - e')"
    have "e' \<le> e" using True e by (simp add: e'_def)
    then have "e = e' + int d" by (simp add: d_def)
    then have "2 powr real_of_int e = 2 powr real_of_int e' * real_of_int (2 ^ d)"
      by (rule p2_shift)
    then have "?v = real_of_int (n * 2 ^ d) * 2 powr real_of_int e'" by simp
    then show ?thesis using round64_exact[OF vpos, of "n * 2 ^ d"] unfolding L e'_def by simp
  next
    case False
    then have j: "j = 53" using j53 by simp
    have "2 powr real_of_int j = real_of_int (2 ^ 53)" unfolding j by (simp add: p2_nat)
    then have "2 ^ 53 \<le> n" using jl by (metis of_int_le_iff)
    then have n: "n = 2 ^ 53" using n53 by simp
    have e1: "max (j + e - 52) (- 1074) = e + 1" using e j by simp
    have "2 powr real_of_int (e + 1) = 2 powr real_of_int e * 2" by (simp add: powr_add)
    then have "?v = real_of_int (2 ^ 52) * 2 powr real_of_int (e + 1)" unfolding n by simp
    then show ?thesis using round64_exact[OF vpos, of "2 ^ 52"] unfolding L e1 by simp
  qed
qed

lemma round64_idem:
  assumes "0 \<le> x"
  shows "round64 (round64 x) = round64 x"
proof (cases "x = 0")
  case True
  then show ?thesis by (simp add: round64_def)
next
  case False
  then have "0 < x" using assms by simp
  then obtain e n where r: "round64 x = real_of_int n * 2 powr real_of_int e"
    and "0 \<le> n" "n \<le> 2 ^ 53" "- 1074 \<le> e"
    by (rule round64_pos)
  then show ?thesis unfolding r by (intro round64_rep)
qed

lemma round64_grid:
  assumes "0 \<le> x"
  shows "\<exists>k. 0 \<le> k \<and> round64 x = real_of_int k * 2 powr (- 1074)"
proof (cases "x = 0")
  case True
  then show ?thesis by (intro exI[of _ 0]) (simp add: round64_def)
next
  case False
  then have "0 < x" using assms by simp
  then obtain e n where e: "- 1074 \<le> e"
    and r: "round64 x = real_of_int n * 2 powr real_of_int e" and n: "0 \<le> n"
    by (rule round64_pos)
  define d where "d = nat (e + 1074)"
  have "e = - 1074 + int d" using e by (simp add: d_def)
  then have "2 powr real_of_int e = 2 powr real_of_int (- 1074) * real_of_int (2 ^ d)"
    by (rule p2_shift)
  then have "2 powr real_of_int e = 2 powr (- 1074) * real_of_int (2 ^ d)" by simp
  then have "round64 x = real_of_int (n * 2 ^ d) * 2 powr (- 1074)" unfolding r by simp
  moreover have "0 \<le> n * 2 ^ d" using n by simp
  ultimately show ?thesis by blast
qed


lemma round64_nonneg:
  assumes "0 \<le> x"
  shows "0 \<le> round64 x"
proof (cases "x = 0")
  case True
  then show ?thesis by (simp add: round64_def)
next
  case False
  then have "0 < x" using assms by simp
  then obtain e n where "round64 x = real_of_int n * 2 powr real_of_int e" and "0 \<le> n"
    by (rule round64_pos)
  then show ?thesis by simp
qed

lemma round64_mono:
  assumes x0: "0 \<le> x" and xy: "x \<le> y"
  shows "round64 x \<le> round64 y"
proof (cases "x = 0")
  case True
  then show ?thesis using round64_nonneg[of y] xy by (simp add: round64_def)
next
  case False
  then have xp: "0 < x" and yp: "0 < y" using x0 xy by simp_all
  from xp obtain e n where e: "e = max (\<lfloor>log 2 x\<rfloor> - 52) (- 1074)"
    and n: "n = rne (x / 2 powr real_of_int e)"
    and rx: "round64 x = real_of_int n * 2 powr real_of_int e" and e0: "- 1074 \<le> e"
    by (rule round64_pos)
  from yp obtain e' n' where e': "e' = max (\<lfloor>log 2 y\<rfloor> - 52) (- 1074)"
    and n': "n' = rne (y / 2 powr real_of_int e')"
    and ry: "round64 y = real_of_int n' * 2 powr real_of_int e'"
    by (rule round64_pos)
  have "log 2 x \<le> log 2 y" using xp xy by simp
  then have LL: "\<lfloor>log 2 x\<rfloor> \<le> \<lfloor>log 2 y\<rfloor>" by (rule floor_mono)
  then have ee: "e \<le> e'" unfolding e e' by linarith
  show ?thesis
  proof (cases "e = e'")
    case True
    have "x / 2 powr real_of_int e \<le> y / 2 powr real_of_int e" using xy by (simp add: divide_right_mono)
    then have "n \<le> n'" unfolding n n' True by (rule rne_mono)
    then show ?thesis unfolding rx ry True by (simp add: mult_right_mono)
  next
    case False
    then have lt: "e < e'" using ee by simp
    define k where "k = \<lfloor>log 2 y\<rfloor>"
    have ek: "e' = k - 52" using lt e0 unfolding e' k_def by linarith
    have "\<lfloor>log 2 x\<rfloor> - 52 \<le> e" unfolding e by simp
    then have Lx: "\<lfloor>log 2 x\<rfloor> + 1 \<le> k" using lt ek by linarith
    have yk: "2 powr real_of_int k \<le> y" unfolding k_def using yp by (rule floor_log2)
    have "x < 2 powr real_of_int (\<lfloor>log 2 x\<rfloor> + 1)" using xp by (rule floor_log2)
    also have "\<dots> \<le> 2 powr real_of_int k" using Lx by (rule p2_mono)
    finally have xk: "x \<le> 2 powr real_of_int k" by simp
    define d where "d = nat (k - e)"
    have kd: "k = e + int d" using lt ek by (simp add: d_def)
    have pk: "2 powr real_of_int k = 2 powr real_of_int e * real_of_int (2 ^ d)"
      using kd by (rule p2_shift)
    have "x / 2 powr real_of_int e \<le> 2 powr real_of_int k / 2 powr real_of_int e"
      using xk by (simp add: divide_right_mono)
    also have "\<dots> = real_of_int (2 ^ d)" unfolding pk by simp
    finally have "n \<le> rne (real_of_int (2 ^ d))" unfolding n by (rule rne_mono)
    then have "real_of_int n \<le> real_of_int (2 ^ d)" unfolding rne_of_int by (simp only: of_int_le_iff)
    then have "real_of_int n * 2 powr real_of_int e \<le> real_of_int (2 ^ d) * 2 powr real_of_int e"
      by (intro mult_right_mono) simp_all
    then have a: "round64 x \<le> 2 powr real_of_int k" unfolding rx pk by (simp add: mult.commute)
    have k': "k = e' + int 52" using ek by simp
    have pk': "2 powr real_of_int k = 2 powr real_of_int e' * real_of_int (2 ^ 52)"
      using k' by (rule p2_shift)
    have "real_of_int (2 ^ 52) = 2 powr real_of_int k / 2 powr real_of_int e'" unfolding pk' by simp
    also have "\<dots> \<le> y / 2 powr real_of_int e'" using yk by (simp add: divide_right_mono)
    finally have "rne (real_of_int (2 ^ 52)) \<le> n'" unfolding n' by (rule rne_mono)
    then have "real_of_int (2 ^ 52) \<le> real_of_int n'" unfolding rne_of_int by (simp only: of_int_le_iff)
    then have "real_of_int (2 ^ 52) * 2 powr real_of_int e' \<le> real_of_int n' * 2 powr real_of_int e'"
      by (intro mult_right_mono) simp_all
    then have b: "2 powr real_of_int k \<le> round64 y" unfolding ry pk' by (simp add: mult.commute)
    from a b show ?thesis by linarith
  qed
qed

lemma round64_err:
  assumes xp: "0 < x" and xk: "x < 2 powr real_of_int k" and k: "- 1021 \<le> k"
  shows "\<bar>round64 x - x\<bar> \<le> 2 powr real_of_int (k - 54)"
proof -
  from xp obtain e n where e: "e = max (\<lfloor>log 2 x\<rfloor> - 52) (- 1074)"
    and n: "n = rne (x / 2 powr real_of_int e)"
    and rx: "round64 x = real_of_int n * 2 powr real_of_int e"
    by (rule round64_pos)
  have "log 2 x < real_of_int k" using xp xk by (simp add: log_less_iff)
  then have "\<lfloor>log 2 x\<rfloor> < k" by linarith
  then have ek: "e \<le> k - 53" unfolding e using k by linarith
  let ?p = "2 powr real_of_int e"
  have p: "0 < ?p" by simp
  have "\<bar>real_of_int n - x / ?p\<bar> \<le> 1 / 2"
    using rne_upper[of "x / ?p"] rne_lower[of "x / ?p"] unfolding n by linarith
  then have "\<bar>real_of_int n - x / ?p\<bar> * ?p \<le> 1 / 2 * ?p" using p by (intro mult_right_mono) simp_all
  moreover have "(real_of_int n - x / ?p) * ?p = round64 x - x"
    unfolding rx using p by (simp add: left_diff_distrib)
  then have "\<bar>real_of_int n - x / ?p\<bar> * ?p = \<bar>round64 x - x\<bar>"
    using p by (metis abs_mult abs_of_pos)
  ultimately have "\<bar>round64 x - x\<bar> \<le> ?p / 2" by simp
  also have "?p \<le> 2 powr real_of_int (k - 53)" using ek by (rule p2_mono)
  also have "2 powr real_of_int (k - 53) / 2 = 2 powr real_of_int (k - 54)"
  proof -
    have "2 powr real_of_int (k - 53) = 2 powr real_of_int (k - 54) * real_of_int (2 ^ 1)"
      by (rule p2_shift) simp
    then show ?thesis by simp
  qed
  finally show ?thesis by simp
qed

lemma rne_near:
  assumes "\<bar>d\<bar> < 1 / 2"
  shows "rne (real_of_int q + d) = q"
proof (cases "0 \<le> d")
  case True
  then have "\<lfloor>real_of_int q + d\<rfloor> = q" using assms by (simp add: floor_eq_iff)
  then show ?thesis using assms True by (simp add: rne_def)
next
  case False
  then have "\<lfloor>real_of_int q + d\<rfloor> = q - 1" using assms by (simp add: floor_eq_iff)
  then show ?thesis using assms False by (simp add: rne_def)
qed

lemma round64_one: "round64 1 = 1"
  using round64_rep[of 1 0] by simp

lemma round64_above_one: "round64 (1 + 2 powr (- 54)) = 1"
proof -
  let ?x = "1 + 2 powr (- 54) :: real"
  have p: "2 powr (- 54) = 1 / (2 ^ 54 :: real)" by (simp add: powr_minus field_simps)
  have "\<lfloor>log 2 ?x\<rfloor> = 0" by (rule floor_log2_eq) (simp_all add: p)
  then have e: "max (\<lfloor>log 2 \<bar>?x\<bar>\<rfloor> - 52) (- 1074) = - 52" by simp
  have q: "2 powr (- 52) = 1 / (2 ^ 52 :: real)" by (simp add: powr_minus field_simps)
  have z: "?x / 2 powr (- 52) = real_of_int (2 ^ 52) + 1 / 4" by (simp add: p q)
  have "rne (?x / 2 powr (- 52)) = 2 ^ 52" unfolding z by (rule rne_near) simp
  moreover have "?x \<noteq> 0" by (simp add: p)
  ultimately have "round64 ?x = real_of_int (2 ^ 52) * 2 powr (- 52)"
    unfolding round64_def e Let_def by simp
  then show ?thesis by (simp add: q)
qed

lemma round64_zero: "round64 0 = 0"
  by (simp add: round64_def)

lemma round64_pow2:
  assumes "- 1074 \<le> k"
  shows "round64 (2 powr real_of_int k) = 2 powr real_of_int k"
  using round64_rep[of 1 k] assms by simp

lemma round64_half: "round64 (1 / 2) = 1 / 2"
  using round64_pow2[of "- 1"] by (simp add: powr_minus)














lemma round64_underflow:
  assumes "\<bar>x\<bar> < 2 powr (- 1075)"
  shows "round64 x = 0"
proof (cases "x = 0")
  case True
  then show ?thesis by (simp add: round64_def)
next
  case False
  then have pos: "0 < \<bar>x\<bar>" by simp
  have "log 2 \<bar>x\<bar> < - 1075"
    using assms pos by (simp add: log_less_iff)
  then have "\<lfloor>log 2 \<bar>x\<bar>\<rfloor> \<le> - 1075" by linarith
  then have e: "max (\<lfloor>log 2 \<bar>x\<bar>\<rfloor> - 52) (- 1074) = - 1074" by linarith
  have "2 powr (- 1075) = 2 powr (- 1074) * (1 / 2 :: real)"
    by (simp add: powr_minus field_simps)
  then have "\<bar>x\<bar> / 2 powr (- 1074) < 1 / 2"
    using assms by (simp add: field_simps)
  then have "\<bar>x / 2 powr (- 1074)\<bar> < 1 / 2" by simp
  then have "rne (x / 2 powr (- 1074)) = 0" by (rule rne_small)
  then show ?thesis using False e by (simp add: round64_def)
qed

lemma round64_of_int:
  assumes "\<bar>k\<bar> < 2 ^ 53"
  shows "round64 (of_int k) = of_int k"
proof (cases "k = 0")
  case True
  then show ?thesis by (simp add: round64_def)
next
  case False
  define L where "L = \<lfloor>log 2 \<bar>real_of_int k\<bar>\<rfloor>"
  have k1: "1 \<le> \<bar>real_of_int k\<bar>" using False by (simp flip: of_int_abs)
  have "0 \<le> log 2 \<bar>real_of_int k\<bar>" using k1 by simp
  then have L0: "0 \<le> L" by (simp add: L_def)
  have "\<bar>real_of_int k\<bar> < 2 ^ 53"
    using assms by (metis of_int_abs of_int_less_numeral_power_cancel_iff)
  then have "\<bar>real_of_int k\<bar> < 2 powr 53" by simp
  then have "log 2 \<bar>real_of_int k\<bar> < 53" using k1 by (simp add: log_less_iff)
  then have L52: "L \<le> 52" unfolding L_def by linarith
  define n where "n = nat (52 - L)"
  have e: "max (L - 52) (- 1074) = - int n" using L0 L52 by (simp add: n_def)
  have p: "2 powr real_of_int (- int n) = 1 / 2 ^ n"
    by (simp add: powr_minus powr_realpow field_simps)
  have "real_of_int k / (1 / 2 ^ n) = real_of_int (k * 2 ^ n)" by simp
  then have "rne (real_of_int k / (1 / 2 ^ n)) = k * 2 ^ n"
    by (simp only: rne_of_int)
  then show ?thesis using False e p unfolding round64_def L_def[symmetric] Let_def
    by simp
qed

lemma round64_numeral:
  assumes "(numeral n :: int) < 2 ^ 53"
  shows "round64 (numeral n) = numeral n"
  using round64_of_int[of "numeral n"] assms by simp


lemma floor_round64_between:
  assumes lo: "real_of_int k \<le> x" and hi: "x \<le> real_of_int k + 1 / 2"
    and k0: "0 \<le> k" and k52: "k < 2 ^ 52"
  shows "\<lfloor>round64 x\<rfloor> = k"
proof -
  have "round64 (real_of_int k) \<le> round64 x" using k0 lo by (intro round64_mono) simp_all
  moreover have "round64 (real_of_int k) = real_of_int k" using k0 k52 by (intro round64_of_int) simp
  ultimately have a: "real_of_int k \<le> round64 x" by simp
  have eq: "real_of_int (2 * k + 1) * 2 powr real_of_int (- 1) = real_of_int k + 1 / 2"
    by (simp add: powr_minus field_simps)
  have "round64 (real_of_int (2 * k + 1) * 2 powr real_of_int (- 1))
          = real_of_int (2 * k + 1) * 2 powr real_of_int (- 1)"
    using k0 k52 by (intro round64_rep) simp_all
  then have h: "round64 (real_of_int k + 1 / 2) = real_of_int k + 1 / 2" unfolding eq .
  have "0 \<le> x" using k0 lo by simp
  then have "round64 x \<le> round64 (real_of_int k + 1 / 2)" using hi by (rule round64_mono)
  then have b: "round64 x \<le> real_of_int k + 1 / 2" by (simp only: h)
  show ?thesis using a b by (simp add: floor_eq_iff)
qed


section \<open>Properties of the controls module\<close>

text \<open>
  C5. Whenever at least one directional key is held (whatever the active source and the
  raw vector were, Tilt with a nonzero raw vector included), \<open>update\<close> makes the keyboard
  the active source and sets the raw vector to the sum of the unit contributions of the
  held keys (left \<open>-1\<close>, right \<open>+1\<close> on x; up \<open>-1\<close>, down \<open>+1\<close> on y) times the
  sensitivity; with left and right both held the raw x is \<open>0\<close>.
\<close>

theorem update_keyboard_priority:
  assumes "keyboardActive c"
  shows "activeMethod (update cfg c) = KEYBOARD
       \<and> vx (rawGravity (update cfg c)) =
           ((if right (keys c) then 1 else 0) - (if left (keys c) then 1 else 0)) * tiltSensitivity cfg
       \<and> vy (rawGravity (update cfg c)) =
           ((if down (keys c) then 1 else 0) - (if up (keys c) then 1 else 0)) * tiltSensitivity cfg
       \<and> (left (keys c) \<and> right (keys c) \<longrightarrow> vx (rawGravity (update cfg c)) = 0)"
  using assms by (simp add: update_def key_raw_def Let_def)

theorem update_keyboard_priority_witness:
  "keyboardActive tilt_state \<and> activeMethod tilt_state = TILT
   \<and> vx (rawGravity tilt_state) \<noteq> 0
   \<and> activeMethod (update sample_config tilt_state) = KEYBOARD
   \<and> vx (rawGravity (update sample_config tilt_state)) = 0
   \<and> vy (rawGravity (update sample_config tilt_state)) = 0"
  using update_keyboard_priority [of tilt_state sample_config]
  by (simp add: keyboardActive_def tilt_state_def)

text \<open>
  C9. An orientation event in which gamma or beta is absent is dropped: the handler
  returns the state as it was, so raw gravity, smoothed gravity, active source and
  calibration are unchanged.
\<close>

theorem invalid_sample_dropped:
  assumes "gamma event = None \<or> beta event = None"
  shows "handleDeviceOrientation cfg event c = c"
  using assms by (auto simp: handleDeviceOrientation_def split: option.splits)

theorem invalid_sample_dropped_witness:
  "(gamma \<lparr>gamma = Some 10, beta = None\<rparr> = None \<or> beta \<lparr>gamma = Some 10, beta = None\<rparr> = None)
   \<and> handleDeviceOrientation sample_config \<lparr>gamma = Some 10, beta = None\<rparr> tilt_state = tilt_state"
  using invalid_sample_dropped [of "\<lparr>gamma = Some 10, beta = None\<rparr>" sample_config tilt_state]
  by simp

text \<open>
  C10. \<open>reset\<close> zeroes the gravity vector, the raw gravity vector, the four key flags and
  the touch-active flag, and leaves the active source, the calibration offset and the
  recorded touch coordinates as they were.
\<close>

theorem reset_frame:
  "gravity (reset c) = \<lparr>vx = 0, vy = 0\<rparr>
   \<and> rawGravity (reset c) = \<lparr>vx = 0, vy = 0\<rparr>
   \<and> keys (reset c) = \<lparr>left = False, right = False, up = False, down = False\<rparr>
   \<and> active (touch (reset c)) = False
   \<and> activeMethod (reset c) = activeMethod c
   \<and> calibration (reset c) = calibration c
   \<and> startX (touch (reset c)) = startX (touch c)
   \<and> startY (touch (reset c)) = startY (touch c)
   \<and> currentX (touch (reset c)) = currentX (touch c)
   \<and> currentY (touch (reset c)) = currentY (touch c)"
  by (simp add: reset_def)

text \<open>
  C8. \<open>calibrate\<close> is meant to zero the current tilt reading, so that the same sample
  delivered again gives a raw vector of \<open>(0, 0)\<close>. It does not in two situations.
  A sample beyond the clamp (gamma 60 with a maximum tilt of 30): the calibration is
  recovered from the clamped raw vector (30, not 60), and the sample delivered again
  still reads 30, raw x = 1. A device already calibrated (offset 10, gamma 20): the
  calibration is recovered from the reading relative to the old offset (10, not 20),
  so the offset does not move and the sample delivered again reads 10, raw x = 1/3.
\<close>

theorem calibrate_not_zeroing:
  "rawGravity (handleDeviceOrientation sample_config \<lparr>gamma = Some 60, beta = Some 0\<rparr>
      (calibrate sample_config
        (handleDeviceOrientation sample_config \<lparr>gamma = Some 60, beta = Some 0\<rparr>
          (portrait_state \<lparr>vx = 0, vy = 0\<rparr>))))
     = \<lparr>vx = 1, vy = 0\<rparr>
   \<and> rawGravity (handleDeviceOrientation sample_config \<lparr>gamma = Some 20, beta = Some 0\<rparr>
      (calibrate sample_config
        (handleDeviceOrientation sample_config \<lparr>gamma = Some 20, beta = Some 0\<rparr>
          (portrait_state \<lparr>vx = 10, vy = 0\<rparr>))))
     = \<lparr>vx = 1 / 3, vy = 0\<rparr>"
  by (simp add: handleDeviceOrientation_def calibrate_def sample_config_def portrait_state_def
      dead_zone_def clamp_tilt_def Let_def)

lemma smooth_step_props:
  assumes sd: "round64 s = s" and slo: "1 / 1000 \<le> s" and shi: "s \<le> 1"
    and gd: "round64 g = g" and g0: "g = 0 \<or> s \<le> g" and g1: "g \<le> 1"
  shows "g \<le> smooth_step s g" and "smooth_step s g \<le> 1"
    and "round64 (smooth_step s g) = smooth_step s g" and "s \<le> smooth_step s g"
    and "1 / 1000 \<le> 1 - g \<Longrightarrow> g < smooth_step s g"
proof -
  define u where "u = 1 - g"
  define d1 where "d1 = round64 u"
  define d2 where "d2 = round64 (d1 * s)"
  define y where "y = g + d2"
  define r where "r = round64 y"
  have gn: "0 \<le> g" using g0 slo by auto
  have u0: "0 \<le> u" and u1: "u \<le> 1" using gn g1 by (simp_all add: u_def)
  have d10: "0 \<le> d1" unfolding d1_def using u0 by (rule round64_nonneg)
  have "d1 \<le> round64 1" unfolding d1_def using u0 u1 by (rule round64_mono)
  then have d11: "d1 \<le> 1" by (simp add: round64_one)
  have d1d: "round64 d1 = d1" unfolding d1_def using u0 by (rule round64_idem)
  have p0: "0 \<le> d1 * s" using d10 slo by simp
  have "d1 * s \<le> d1" using d10 shi by (simp add: mult_left_le)
  then have "d2 \<le> round64 d1" unfolding d2_def using p0 by (intro round64_mono)
  then have d2d1: "d2 \<le> d1" by (simp add: d1d)
  have d20: "0 \<le> d2" unfolding d2_def using p0 by (rule round64_nonneg)
  have y0: "0 \<le> y" and gy: "g \<le> y" using gn d20 by (simp_all add: y_def)
  have "round64 g \<le> r" unfolding r_def using gn gy by (rule round64_mono)
  then have gr: "g \<le> r" by (simp add: gd)
  have p54: "2 powr (- 54) = 1 / (2 ^ 54 :: real)" by (simp add: powr_minus field_simps)
  have d1u: "d1 \<le> u + 2 powr (- 54)"
  proof (cases "u = 0 \<or> u = 1")
    case True
    then show ?thesis unfolding d1_def by (auto simp: round64_zero round64_one)
  next
    case False
    then have "0 < u" "u < 2 powr real_of_int 0" using u0 u1 by simp_all
    then have "\<bar>round64 u - u\<bar> \<le> 2 powr real_of_int (0 - 54)" by (rule round64_err) simp
    then show ?thesis unfolding d1_def by simp
  qed
  have "y \<le> 1 + 2 powr (- 54)" using d2d1 d1u by (simp add: y_def u_def)
  then have "r \<le> round64 (1 + 2 powr (- 54))" unfolding r_def using y0 by (intro round64_mono)
  then have r1: "r \<le> 1" by (simp add: round64_above_one)
  have sr: "s \<le> r"
  proof (cases "g = 0")
    case True
    then have "r = s" by (simp add: r_def y_def d2_def d1_def u_def round64_one sd)
    then show ?thesis by simp
  next
    case False
    then show ?thesis using g0 gr by simp
  qed
  have st: "smooth_step s g = r"
    using sr slo by (simp add: smooth_step_def snap_def r_def y_def d2_def d1_def u_def)
  show "g \<le> smooth_step s g" "smooth_step s g \<le> 1" "s \<le> smooth_step s g"
    using gr r1 sr by (simp_all add: st)
  show "round64 (smooth_step s g) = smooth_step s g"
    unfolding st r_def using y0 by (rule round64_idem)
  show "g < smooth_step s g" if far: "1 / 1000 \<le> 1 - g"
  proof -
    have p10: "2 powr (- 10) = 1 / (2 ^ 10 :: real)" by (simp add: powr_minus field_simps)
    have p20: "2 powr (- 20) = 1 / (2 ^ 20 :: real)" by (simp add: powr_minus field_simps)
    have p53: "2 powr (- 53) = 1 / (2 ^ 53 :: real)" by (simp add: powr_minus field_simps)
    have "2 powr real_of_int (- 10) \<le> u" using far by (simp add: u_def p10)
    then have "round64 (2 powr real_of_int (- 10)) \<le> d1" unfolding d1_def by (intro round64_mono) simp_all
    then have a: "2 powr real_of_int (- 10) \<le> d1" using round64_pow2[of "- 10"] by simp
    have "2 powr real_of_int (- 10) \<le> s" using slo by (simp add: p10)
    then have "2 powr real_of_int (- 10) * 2 powr real_of_int (- 10) \<le> d1 * s"
      using a d10 by (intro mult_mono) simp_all
    then have "2 powr real_of_int (- 20) \<le> d1 * s" by (simp add: p10 p20)
    then have "round64 (2 powr real_of_int (- 20)) \<le> d2" unfolding d2_def by (intro round64_mono) simp_all
    then have b: "2 powr real_of_int (- 20) \<le> d2" using round64_pow2[of "- 20"] by simp
    have "0 < y" using gn b y_def p20 by simp
    moreover have "y < 2 powr real_of_int 1" using \<open>y \<le> 1 + 2 powr (- 54)\<close> by (simp add: p54)
    ultimately have "\<bar>round64 y - y\<bar> \<le> 2 powr real_of_int (1 - 54)" by (rule round64_err) simp
    then have "\<bar>r - y\<bar> \<le> 1 / 2 ^ 53" unfolding r_def by (simp add: p53)
    then have "y - 1 / 2 ^ 53 \<le> r" by linarith
    moreover have "g + 1 / 2 ^ 20 \<le> y" using b by (simp add: y_def p20)
    ultimately have "g < r" by simp
    then show ?thesis by (simp add: st)
  qed
qed


lemma frames_Suc_right: "frames cfg (Suc n) c = update cfg (frames cfg n c)"
  by (induction n arbitrary: c) simp_all

lemma update_raw_held:
  assumes "raw_held cfg c"
  shows "raw_held cfg (update cfg c)"
    and "vx (gravity (update cfg c)) = smooth_step (smoothing cfg) (vx (gravity c))"
  using assms
  by (auto simp: raw_held_def update_def smooth_step_def Let_def keyboardActive_def split: if_splits)

lemma frames_smooth:
  assumes "raw_held cfg c" and "vx (gravity c) = 0"
  shows "raw_held cfg (frames cfg n c)
       \<and> vx (gravity (frames cfg n c)) = (smooth_step (smoothing cfg) ^^ n) 0"
proof (induction n)
  case 0
  show ?case using assms by simp
next
  case (Suc n)
  then show ?case unfolding frames_Suc_right using update_raw_held[of cfg "frames cfg n c"] by simp
qed

lemma smooth_iter_inv:
  assumes sd: "round64 s = s" and slo: "1 / 1000 \<le> s" and shi: "s \<le> 1"
  shows "round64 ((smooth_step s ^^ n) 0) = (smooth_step s ^^ n) 0
       \<and> ((smooth_step s ^^ n) 0 = 0 \<or> s \<le> (smooth_step s ^^ n) 0)
       \<and> (smooth_step s ^^ n) 0 \<le> 1"
proof (induction n)
  case 0
  show ?case by (simp add: round64_zero)
next
  case (Suc n)
  then show ?case using smooth_step_props(2,3,4)[OF sd slo shi, of "(smooth_step s ^^ n) 0"] by simp
qed

lemma smooth_iter_fixed:
  assumes "(smooth_step s ^^ Suc n) 0 = (smooth_step s ^^ n) 0"
  shows "(smooth_step s ^^ (n + k)) 0 = (smooth_step s ^^ n) 0"
proof (induction k)
  case 0
  show ?case by simp
next
  case (Suc k)
  have "(smooth_step s ^^ (n + Suc k)) 0 = smooth_step s ((smooth_step s ^^ (n + k)) 0)" by simp
  also have "\<dots> = smooth_step s ((smooth_step s ^^ n) 0)" by (simp only: Suc)
  also have "\<dots> = (smooth_step s ^^ n) 0" using assms by simp
  finally show ?case .
qed

lemma smooth_iter_stops:
  assumes sd: "round64 s = s" and slo: "1 / 1000 \<le> s" and shi: "s \<le> 1"
  shows "\<exists>N. (smooth_step s ^^ Suc N) 0 = (smooth_step s ^^ N) 0"
proof (rule ccontr)
  assume "\<not> ?thesis"
  then have ne: "(smooth_step s ^^ Suc n) 0 \<noteq> (smooth_step s ^^ n) 0" for n by blast
  let ?g = "\<lambda>n. (smooth_step s ^^ n) 0"
  let ?p = "2 powr (- 1074) :: real"
  note inv = smooth_iter_inv[OF sd slo shi]
  have up: "?g n < ?g (Suc n)" for n
    using smooth_step_props(1)[OF sd slo shi, of "?g n"] inv[of n] ne[of n] by simp
  have g0: "0 \<le> ?g n" for n using inv[of n] slo by auto
  have grid: "\<exists>k. ?g n = real_of_int k * ?p" for n
    using round64_grid[OF g0[of n]] inv[of n] by auto
  have low: "real n * ?p \<le> ?g n" for n
  proof (induction n)
    case 0
    show ?case by simp
  next
    case (Suc n)
    obtain a where a: "?g n = real_of_int a * ?p" using grid[of n] by blast
    obtain b where b: "?g (Suc n) = real_of_int b * ?p" using grid[of "Suc n"] by blast
    have "real_of_int a * ?p < real_of_int b * ?p" using up[of n] unfolding a b .
    then have "a < b" by simp
    then have ab: "real_of_int a + 1 \<le> real_of_int b" by linarith
    have "real n * ?p \<le> real_of_int a * ?p" using Suc unfolding a .
    then have "real n \<le> real_of_int a" by simp
    then have "real (Suc n) \<le> real_of_int b" using ab by simp
    then have "real (Suc n) * ?p \<le> real_of_int b * ?p" by (intro mult_right_mono) simp_all
    then show ?case unfolding b .
  qed
  have "?p = 1 / 2 ^ 1074" by (simp add: powr_minus field_simps)
  then have "real (2 ^ 1075) * ?p = 2" by simp
  then have "2 \<le> ?g (2 ^ 1075)" using low[of "2 ^ 1075"] by simp
  then show False using inv[of "2 ^ 1075"] by simp
qed

text \<open>
  C6, as amended. Let the smoothing factor be a double between the snap threshold
  \<open>1/1000\<close> and \<open>1\<close>, the raw vector be held at \<open>(1, 0)\<close> and gravity start at
  \<open>(0, 0)\<close>. Over repeated calls of \<open>update\<close> gravity.x never decreases and never
  exceeds \<open>1\<close>; it strictly increases as long as it is \<open>1/1000\<close> or more below \<open>1\<close>;
  after finitely many calls it has a value less than \<open>1/1000\<close> below \<open>1\<close> that every
  further call leaves unchanged; and once one call leaves it unchanged, every later call
  does.
\<close>

theorem gravity_smoothing_converges:
  assumes held: "raw_held cfg c" and g0: "gravity c = \<lparr>vx = 0, vy = 0\<rparr>"
    and sd: "round64 (smoothing cfg) = smoothing cfg"
    and lo: "1 / 1000 \<le> smoothing cfg" and hi: "smoothing cfg \<le> 1"
  shows "vx (gravity (frames cfg n c)) \<le> vx (gravity (frames cfg (Suc n) c))
       \<and> vx (gravity (frames cfg n c)) \<le> 1
       \<and> (1 / 1000 \<le> 1 - vx (gravity (frames cfg n c))
            \<longrightarrow> vx (gravity (frames cfg n c)) < vx (gravity (frames cfg (Suc n) c)))
       \<and> (\<exists>N. 1 - vx (gravity (frames cfg N c)) < 1 / 1000
              \<and> (\<forall>k. vx (gravity (frames cfg (N + k) c)) = vx (gravity (frames cfg N c))))
       \<and> (vx (gravity (frames cfg (Suc n) c)) = vx (gravity (frames cfg n c))
            \<longrightarrow> vx (gravity (frames cfg (n + k) c)) = vx (gravity (frames cfg n c)))"
proof -
  let ?s = "smoothing cfg"
  let ?g = "\<lambda>n. (smooth_step ?s ^^ n) 0"
  have fr: "vx (gravity (frames cfg n c)) = ?g n" for n
    using frames_smooth[OF held, of n] g0 by simp
  note inv = smooth_iter_inv[OF sd lo hi]
  note st = smooth_step_props[OF sd lo hi]
  have a: "?g n \<le> ?g (Suc n)" using st(1)[of "?g n"] inv[of n] by simp
  have b: "?g n \<le> 1" using inv[of n] by simp
  have c: "?g n < ?g (Suc n)" if "1 / 1000 \<le> 1 - ?g n" for n
    using st(5)[of "?g n"] inv[of n] that by simp
  obtain N where N: "?g (Suc N) = ?g N" using smooth_iter_stops[OF sd lo hi] by blast
  have "1 - ?g N < 1 / 1000" using c[of N] N by fastforce
  moreover have "\<forall>k. ?g (N + k) = ?g N" using smooth_iter_fixed[OF N] by blast
  ultimately have d: "\<exists>N. 1 - ?g N < 1 / 1000 \<and> (\<forall>k. ?g (N + k) = ?g N)" by blast
  have e: "?g (n + k) = ?g n" if "?g (Suc n) = ?g n" using smooth_iter_fixed[OF that] .
  show ?thesis unfolding fr using a b c[of n] d e by blast
qed

theorem gravity_smoothing_converges_witness:
  "raw_held (config_with_smoothing (1/2)) held_state
   \<and> gravity held_state = \<lparr>vx = 0, vy = 0\<rparr>
   \<and> round64 (smoothing (config_with_smoothing (1/2))) = smoothing (config_with_smoothing (1/2))
   \<and> 1 / 1000 \<le> smoothing (config_with_smoothing (1/2))
   \<and> smoothing (config_with_smoothing (1/2)) \<le> 1
   \<and> vx (gravity (frames (config_with_smoothing (1/2)) 1 held_state)) \<le> 1
   \<and> (\<exists>N. 1 - vx (gravity (frames (config_with_smoothing (1/2)) N held_state)) < 1 / 1000)"
proof -
  have h: "raw_held (config_with_smoothing (1/2)) held_state"
    by (simp add: raw_held_def held_state_def keyboardActive_def)
  have g: "gravity held_state = \<lparr>vx = 0, vy = 0\<rparr>" by (simp add: held_state_def)
  have sd: "round64 (smoothing (config_with_smoothing (1/2))) = smoothing (config_with_smoothing (1/2))"
    by (simp add: config_with_smoothing_def round64_half)
  have lo: "1 / 1000 \<le> smoothing (config_with_smoothing (1/2))"
    and hi: "smoothing (config_with_smoothing (1/2)) \<le> 1"
    by (simp_all add: config_with_smoothing_def)
  from gravity_smoothing_converges[OF h g sd lo hi, of 1 0] h g sd lo hi show ?thesis by blast
qed

text \<open>
  C6 as stated fails. With a smoothing factor of \<open>1/2048\<close> (a double in \<open>(0, 1]\<close>) the
  first step from \<open>0\<close> gives \<open>1/2048\<close>, below the snap threshold, and is snapped back
  to \<open>0\<close>: \<open>update\<close> returns the state it was given and gravity.x stays \<open>0\<close> for ever.
\<close>

theorem gravity_smoothing_counterexample:
  "raw_held (config_with_smoothing (1/2048)) held_state
   \<and> gravity held_state = \<lparr>vx = 0, vy = 0\<rparr>
   \<and> round64 (smoothing (config_with_smoothing (1/2048))) = smoothing (config_with_smoothing (1/2048))
   \<and> 0 < smoothing (config_with_smoothing (1/2048))
   \<and> smoothing (config_with_smoothing (1/2048)) \<le> 1
   \<and> update (config_with_smoothing (1/2048)) held_state = held_state
   \<and> (\<forall>n. vx (gravity (frames (config_with_smoothing (1/2048)) n held_state)) = 0)"
proof -
  have r: "round64 (1 / 2048) = 1 / 2048"
    using round64_pow2[of "- 11"] by (simp add: powr_minus)
  have u: "update (config_with_smoothing (1/2048)) held_state = held_state"
    by (simp add: held_state_def keyboardActive_def config_with_smoothing_def
        update_def snap_def Let_def round64_zero round64_one r)
  have "frames (config_with_smoothing (1/2048)) n held_state = held_state" for n
    by (induction n) (simp_all add: u)
  then have "\<forall>n. vx (gravity (frames (config_with_smoothing (1/2048)) n held_state)) = 0"
    by (simp add: held_state_def)
  then show ?thesis using u r
    by (simp add: raw_held_def held_state_def keyboardActive_def config_with_smoothing_def)
qed


section \<open>Properties of SeededRandom\<close>

lemma excess_bits_numeral:
  "excess_bits (numeral k) =
     (if (numeral k :: int) < 9007199254740992 then 0 else Suc (excess_bits (numeral k div 2)))"
  by (rule excess_bits.simps)

lemma excess_bits_small: "excess_bits 0 = 0" "excess_bits 1 = 0"
  by (simp_all add: excess_bits.simps)

text \<open>
  C2. \<open>next()\<close> is meant to step the seed by \<open>(seed * 1103515245 + 12345) mod 2^31\<close>.
  The product is computed in double precision and loses its low bits once it reaches
  \<open>2^53\<close>. From seed 9000000 the exact sum is the odd number 9931637205012345, above
  \<open>2^53\<close>, where doubles are the even integers: the sum rounds to 9931637205012344 and
  the new seed is 2074382200, not 2074382201. From 1700000000000, a value of
  \<open>Date.now()\<close>, the new seed is 1515978752, not 1516075065.
\<close>

theorem next_seed_loses_low_bits:
  "seed (snd (rng_next \<lparr>seed = 9000000\<rparr>)) = 2074382200
   \<and> (9000000 * 1103515245 + 12345) mod 2 ^ 31 = (2074382201 :: int)
   \<and> seed (snd (rng_next \<lparr>seed = 1700000000000\<rparr>)) = 1515978752
   \<and> (1700000000000 * 1103515245 + 12345) mod 2 ^ 31 = (1516075065 :: int)"
  by (simp add: rng_next_def next_seed_def round53_def excess_bits_numeral Let_def)

text \<open>
  C7. The outputs of \<open>n\<close> successive calls of \<open>next()\<close> are a function of the seed
  alone: two generators with the same seed, whatever else they carry, give the same
  sequence of outputs and end with the same seed.
\<close>

theorem next_deterministic:
  fixes g1 :: "'a SeededRandom_scheme" and g2 :: "'b SeededRandom_scheme"
  assumes "seed g1 = seed g2"
  shows "fst (draws n g1) = fst (draws n g2) \<and> seed (snd (draws n g1)) = seed (snd (draws n g2))"
  using assms
proof (induction n arbitrary: g1 g2)
  case 0
  then show ?case by simp
next
  case (Suc n)
  let ?h1 = "snd (rng_next g1)" and ?h2 = "snd (rng_next g2)"
  have s: "seed ?h1 = seed ?h2" using Suc.prems by (simp add: rng_next_def Let_def)
  have r: "fst (rng_next g1) = fst (rng_next g2)" using Suc.prems by (simp add: rng_next_def Let_def)
  from Suc.IH[OF s] r show ?case
    by (simp add: case_prod_unfold Let_def)
qed

theorem next_deterministic_witness:
  "seed \<lparr>seed = 42\<rparr> = seed \<lparr>seed = 42, \<dots> = True\<rparr>
   \<and> fst (draws 3 \<lparr>seed = 42\<rparr>) = fst (draws 3 \<lparr>seed = 42, \<dots> = True\<rparr>)
   \<and> fst (draws 1 \<lparr>seed = 42\<rparr>) = [1250496027 / 2147483647]"
proof -
  have s: "seed \<lparr>seed = 42\<rparr> = seed \<lparr>seed = 42, \<dots> = True\<rparr>" by simp
  have d: "fst (draws 1 \<lparr>seed = 42\<rparr>) = [1250496027 / 2147483647]"
    by (simp add: rng_next_def next_seed_def round53_def excess_bits_numeral Let_def)
  from next_deterministic[OF s, of 3] s d show ?thesis by blast
qed


section \<open>Properties of the maze generator\<close>

subsection \<open>Grids as maps\<close>

lemma cells_grid_ok: "grid_ok c r g \<Longrightarrow> (cells g p \<noteq> None) = inb c r p"
  by (auto simp: grid_ok_def cells_def inb_def)

lemma cells_cell_at: "cells g (x, y) = Some v \<Longrightarrow> cell_at g x y = v"
  by (auto simp: cells_def split: if_splits)

lemma cells_inb: "grid_ok c r g \<Longrightarrow> inb c r (x, y) \<Longrightarrow> cells g (x, y) = Some (cell_at g x y)"
  by (auto simp: grid_ok_def cells_def inb_def)

lemma cells_set_cell:
  assumes "cells g (x, y) \<noteq> None"
  shows "cells (set_cell g x y v) p = (if p = (x, y) then Some v else cells g p)"
proof -
  obtain a b where p: "p = (a, b)" by (cases p)
  from assms have y: "0 \<le> y" "nat y < length g" and x: "0 \<le> x" "nat x < length (g ! nat y)"
    by (auto simp: cells_def split: if_splits)
  show ?thesis
  proof (cases "0 \<le> b \<and> nat b < length g \<and> 0 \<le> a")
    case False
    then show ?thesis using x y by (auto simp: cells_def set_cell_def p)
  next
    case True
    then have b: "0 \<le> b" "nat b < length g" and a: "0 \<le> a" by simp_all
    have eqy: "(nat b = nat y) = (b = y)" using b y by auto
    have eqx: "(nat a = nat x) = (a = x)" using a x by auto
    show ?thesis using x y a b eqx eqy
      by (auto simp: cells_def set_cell_def cell_at_def p nth_list_update)
  qed
qed

lemma grid_ok_set_cell: "grid_ok c r g \<Longrightarrow> grid_ok c r (set_cell g x y v)"
  by (cases "nat y < length g") (auto simp: grid_ok_def set_cell_def nth_list_update)

lemma grid_ok_replicate: "grid_ok c r (replicate (nat r) (replicate (nat c) WALL))"
  by (simp add: grid_ok_def)

lemma cells_replicate:
  "cells (replicate (nat r) (replicate (nat c) WALL)) p = (if inb c r p then Some WALL else None)"
  by (auto simp: cells_def inb_def cell_at_def)

lemma passable_set_cell:
  "cells g (x, y) \<noteq> None \<Longrightarrow>
   passable (set_cell g x y v) p = (if p = (x, y) then v \<noteq> WALL else passable g p)"
  by (cases v) (auto simp: passable_def cells_set_cell)

lemma carved_refl: "grid_ok c r g \<Longrightarrow> carved c r g g"
  by (simp add: carved_def)

lemma carved_trans: "carved c r g g1 \<Longrightarrow> carved c r g1 g2 \<Longrightarrow> carved c r g g2"
  unfolding carved_def by metis

lemma carved_set_cell:
  "grid_ok c r g \<Longrightarrow> cells g (x, y) \<noteq> None \<Longrightarrow> carved c r g (set_cell g x y PATH)"
  by (simp add: carved_def grid_ok_set_cell cells_set_cell)

lemma carved_passable: "carved c r g g' \<Longrightarrow> passable g p \<Longrightarrow> passable g' p"
  unfolding carved_def passable_def by metis

lemma carved_grid_ok: "carved c r g g' \<Longrightarrow> grid_ok c r g'"
  by (simp add: carved_def)

subsection \<open>Flood fill and connectedness\<close>

lemma flood_mono:
  assumes "\<And>p. passable g p \<Longrightarrow> passable g' p" and "q \<in> flood g s"
  shows "q \<in> flood g' s"
  using assms(2)
proof (induction rule: flood.induct)
  case flood_start
  then show ?case by (simp add: assms(1) flood.flood_start)
next
  case (flood_step p q)
  then show ?case by (meson assms(1) flood.flood_step)
qed

lemma flood_trans:
  assumes "q \<in> flood g p" and "t \<in> flood g q"
  shows "t \<in> flood g p"
  using assms(2,1)
  by (induction rule: flood.induct) (auto intro: flood.flood_step)

lemma flood_passable: "q \<in> flood g p \<Longrightarrow> passable g q"
  by (induction rule: flood.induct) auto

lemma adjacent_sym: "adjacent p q \<Longrightarrow> adjacent q p"
  by (auto simp: adjacent_def)

lemma connD: "conn g \<Longrightarrow> passable g p \<Longrightarrow> passable g q \<Longrightarrow> q \<in> flood g p"
  unfolding conn_def by blast

lemma connI: "(\<And>p q. passable g p \<Longrightarrow> passable g q \<Longrightarrow> q \<in> flood g p) \<Longrightarrow> conn g"
  unfolding conn_def by blast

text \<open>Opening one more cell next to a passable one keeps the passable cells connected.\<close>

lemma conn_add:
  assumes c: "conn g"
    and sub: "\<And>p. passable g' p = (passable g p \<or> p = a)"
    and att: "passable g a \<or> (\<exists>q. passable g q \<and> adjacent a q) \<or> (\<forall>q. \<not> passable g q)"
  shows "conn g'"
proof (cases "passable g a")
  case True
  then have eq: "\<And>p. passable g' p = passable g p" using sub by auto
  show ?thesis
  proof (rule connI)
    fix p q assume "passable g' p" "passable g' q"
    then have "q \<in> flood g p" using connD[OF c] eq by simp
    then show "q \<in> flood g' p" by (rule flood_mono[rotated]) (simp add: eq)
  qed
next
  case False
  have mono: "\<And>p q. q \<in> flood g p \<Longrightarrow> q \<in> flood g' p"
    by (rule flood_mono[rotated]) (auto simp: sub)
  have pa: "passable g' a" by (simp add: sub)
  show ?thesis
  proof (rule connI)
    fix p q assume p: "passable g' p" and q: "passable g' q"
    consider (none) "\<forall>q. \<not> passable g q" | (nb) n where "passable g n" "adjacent a n"
      using att False by blast
    then show "q \<in> flood g' p"
    proof cases
      case none
      then have "p = a" "q = a" using p q sub by blast+
      then show ?thesis using pa by (simp add: flood.flood_start)
    next
      case nb
      have n': "passable g' n" using nb(1) sub by simp
      have a_to: "t \<in> flood g' a" if "passable g t" for t
      proof -
        have "n \<in> flood g' a"
          using flood.flood_step[OF flood.flood_start[OF pa] nb(2) n'] .
        moreover have "t \<in> flood g' n" using connD[OF c nb(1) that] mono by simp
        ultimately show ?thesis by (rule flood_trans)
      qed
      have to_a: "a \<in> flood g' t" if "passable g t" for t
      proof -
        have "n \<in> flood g' t" using connD[OF c that nb(1)] mono by simp
        then show ?thesis using adjacent_sym[OF nb(2)] pa by (rule flood.flood_step)
      qed
      show ?thesis
      proof (cases "p = a")
        case True
        show ?thesis
        proof (cases "q = a")
          case True
          with \<open>p = a\<close> pa show ?thesis by (simp add: flood.flood_start)
        next
          case False
          then have "passable g q" using q sub by simp
          then show ?thesis using a_to \<open>p = a\<close> by simp
        qed
      next
        case False
        then have pg: "passable g p" using p sub by simp
        show ?thesis
        proof (cases "q = a")
          case True
          then show ?thesis using to_a[OF pg] by simp
        next
          case False
          then have "passable g q" using q sub by simp
          then show ?thesis using connD[OF c pg] mono by simp
        qed
      qed
    qed
  qed
qed

subsection \<open>The shuffle keeps the directions\<close>

lemma js_swap_set:
  assumes "i < length xs"
  shows "set (js_swap i j xs) \<subseteq> insert None (set xs)"
    and "None \<in> set (js_swap i j xs) \<or> set (js_swap i j xs) = set xs"
    and "length xs \<le> length (js_swap i j xs)"
proof -
  consider (neg) "j < 0" | (inside) "0 \<le> j" "nat j < length xs" | (beyond) "0 \<le> j" "length xs \<le> nat j"
    by linarith
  then have "set (js_swap i j xs) \<subseteq> insert None (set xs)
      \<and> (None \<in> set (js_swap i j xs) \<or> set (js_swap i j xs) = set xs)
      \<and> length xs \<le> length (js_swap i j xs)"
  proof cases
    case neg
    have "set (xs[i := None]) \<subseteq> insert None (set xs)" by (rule set_update_subset_insert)
    moreover have "None \<in> set (xs[i := None])" using assms by (rule set_update_memI)
    ultimately show ?thesis using neg by (simp add: js_swap_def)
  next
    case inside
    have "js_swap i j xs = xs[i := xs ! nat j, nat j := xs ! i]"
      using inside by (simp add: js_swap_def)
    moreover have "set (xs[i := xs ! nat j, nat j := xs ! i]) = set xs"
      using assms inside(2) by (rule set_swap)
    ultimately show ?thesis by auto
  next
    case beyond
    have eq: "js_swap i j xs = xs[i := None] @ replicate (nat j - length xs) None @ [xs ! i]"
      using beyond by (simp add: js_swap_def)
    have "set (xs[i := None]) \<subseteq> insert None (set xs)" by (rule set_update_subset_insert)
    moreover have "None \<in> set (xs[i := None])" using assms by (rule set_update_memI)
    moreover have "xs ! i \<in> set xs" using assms by simp
    ultimately show ?thesis unfolding eq by auto
  qed
  then show "set (js_swap i j xs) \<subseteq> insert None (set xs)"
    and "None \<in> set (js_swap i j xs) \<or> set (js_swap i j xs) = set xs"
    and "length xs \<le> length (js_swap i j xs)" by blast+
qed

lemma shuffle_loop_set:
  "k < length xs \<Longrightarrow> shuffle_loop k xs g = (ys, g') \<Longrightarrow>
   set ys \<subseteq> insert None (set xs) \<and> (None \<in> set ys \<or> set ys = set xs)"
proof (induction k arbitrary: xs g)
  case 0
  then show ?case by auto
next
  case (Suc k)
  obtain j g1 where nj: "nextInt 0 (int (Suc k) + 1) g = (j, g1)" by (cases "nextInt 0 (int (Suc k) + 1) g")
  let ?xs = "js_swap (Suc k) j xs"
  from Suc.prems(2) nj have run: "shuffle_loop k ?xs g1 = (ys, g')" by simp
  have len: "k < length ?xs" using js_swap_set(3)[OF Suc.prems(1), of j] Suc.prems(1) by linarith
  from Suc.IH[OF len run] js_swap_set(1,2)[OF Suc.prems(1), of j]
  show ?case by blast
qed

lemma shuffle_dirs:
  assumes "shuffle DIRECTIONS rg = (ds, rg')"
  shows "unit_dirs ds" and "None \<notin> set ds \<Longrightarrow> d \<in> set DIRECTIONS \<Longrightarrow> Some d \<in> set ds"
proof -
  have len: "length DIRECTIONS - 1 < length (map Some DIRECTIONS)" by (simp add: DIRECTIONS_def)
  from assms have "shuffle_loop (length DIRECTIONS - 1) (map Some DIRECTIONS) rg = (ds, rg')"
    by (simp add: shuffle_def)
  from shuffle_loop_set[OF len this]
  have sub: "set ds \<subseteq> insert None (Some ` set DIRECTIONS)"
    and all: "None \<in> set ds \<or> set ds = Some ` set DIRECTIONS" by simp_all
  show "unit_dirs ds" unfolding unit_dirs_def using sub by auto
  show "Some d \<in> set ds" if "None \<notin> set ds" "d \<in> set DIRECTIONS" using all that by auto
qed

subsection \<open>The carve\<close>

lemma dir_unit: "d \<in> set DIRECTIONS \<Longrightarrow> \<bar>dx d\<bar> + \<bar>dy d\<bar> = 1"
  by (auto simp: DIRECTIONS_def)

lemma interior_step:
  assumes "interior c r (x, y)" and "d \<in> set DIRECTIONS"
  shows "inb c r (x + dx d, y + dy d)"
  using assms dir_unit[OF assms(2)] by (auto simp: interior_def inb_def)

lemma interior_inb: "interior c r p \<Longrightarrow> inb c r p"
  by (auto simp: interior_def inb_def)

lemma carve_carved:
  "grid_ok c r (fst st) \<Longrightarrow> interior c r (x, y) \<Longrightarrow> carve n c r x y st = Inr st'
     \<Longrightarrow> carved c r (fst st) (fst st') \<and> cells (fst st') (x, y) = Some PATH"
  and carve_dirs_carved:
  "grid_ok c r (fst st) \<Longrightarrow> interior c r (x, y) \<Longrightarrow> unit_dirs ds
     \<Longrightarrow> carve_dirs n c r x y ds st = Inr st'
     \<Longrightarrow> carved c r (fst st) (fst st')"
proof (induction n c r x y st and n c r x y ds st arbitrary: st' and st'
       rule: carve_carve_dirs.induct)
  case (1 c r x y st)
  then show ?case by simp
next
  case (2 n c r x y g rg)
  obtain ds rg1 where sh: "shuffle DIRECTIONS rg = (ds, rg1)" by (cases "shuffle DIRECTIONS rg")
  let ?g1 = "set_cell g x y PATH"
  have ok: "grid_ok c r g" using "2.prems"(1) by simp
  have xy: "cells g (x, y) \<noteq> None"
    using cells_grid_ok[OF ok] interior_inb[OF "2.prems"(2)] by simp
  have c1: "carved c r g ?g1" using ok xy by (rule carved_set_cell)
  have run: "carve_dirs n c r x y ds (?g1, rg1) = Inr st'"
    using "2.prems"(3) sh by simp
  have "carved c r ?g1 (fst st')"
    using "2.IH"[OF refl refl sh[symmetric] _ "2.prems"(2) shuffle_dirs(1)[OF sh] run]
      carved_grid_ok[OF c1] by simp
  then have c2: "carved c r g (fst st')" using c1 carved_trans by blast
  have "cells ?g1 (x, y) = Some PATH" using xy by (simp add: cells_set_cell)
  then have "cells (fst st') (x, y) = Some PATH"
    using \<open>carved c r ?g1 (fst st')\<close> unfolding carved_def by metis
  with c2 show ?case by simp
next
  case (3 n c r x y st)
  then show ?case by (auto intro: carved_refl)
next
  case (4 n c r x y ds st)
  then show ?case by simp
next
  case (5 n c r x y d ds g rg)
  let ?nx = "x + dx d * 2" and ?ny = "y + dy d * 2"
  let ?cond = "?nx > 0 \<and> ?nx < c - 1 \<and> ?ny > 0 \<and> ?ny < r - 1 \<and> cell_at g ?nx ?ny = WALL"
  have ok: "grid_ok c r g" using "5.prems"(1) by simp
  have d: "d \<in> set DIRECTIONS" and uds: "unit_dirs ds"
    using "5.prems"(3) by (auto simp: unit_dirs_def)
  show ?case
  proof (cases ?cond)
    case True
    let ?g2 = "set_cell g (x + dx d) (y + dy d) PATH"
    have mid: "cells g (x + dx d, y + dy d) \<noteq> None"
      using cells_grid_ok[OF ok] interior_step[OF "5.prems"(2) d] by simp
    have c2: "carved c r g ?g2" using ok mid by (rule carved_set_cell)
    have int: "interior c r (?nx, ?ny)" using True by (simp add: interior_def)
    obtain st1 where r1: "carve n c r ?nx ?ny (?g2, rg) = Inr st1"
      and r2: "carve_dirs n c r x y ds st1 = Inr st'"
      using "5.prems"(4) True by (auto simp: Let_def split: sum.splits)
    have c3: "carved c r ?g2 (fst st1)"
      using "5.IH"(1)[OF refl refl True _ int r1] carved_grid_ok[OF c2] by simp
    have c4: "carved c r (fst st1) (fst st')"
      using "5.IH"(2)[OF refl refl True r1 carved_grid_ok[OF c3] "5.prems"(2) uds r2] .
    show ?thesis using c2 c3 c4 carved_trans by (metis fst_conv)
  next
    case False
    then have "carve_dirs n c r x y ds (g, rg) = Inr st'"
      using "5.prems"(4) by (auto simp: Let_def)
    from "5.IH"(3)[OF refl refl False "5.prems"(1,2) uds this] show ?thesis .
  qed
qed

lemma conn_set_cell:
  assumes "conn g" and "cells g (x, y) \<noteq> None" and "v \<noteq> WALL" and "attach g (x, y)"
  shows "conn (set_cell g x y v)"
proof (rule conn_add[OF assms(1)])
  show "passable (set_cell g x y v) p = (passable g p \<or> p = (x, y))" for p
    using assms(2,3) by (simp add: passable_set_cell)
  show "passable g (x, y) \<or> (\<exists>q. passable g q \<and> adjacent (x, y) q) \<or> (\<forall>q. \<not> passable g q)"
    using assms(4) by (simp add: attach_def)
qed

lemma adjacent_step:
  assumes "d \<in> set DIRECTIONS"
  shows "adjacent (x + dx d, y + dy d) (x, y)"
    and "adjacent (x + dx d * 2, y + dy d * 2) (x + dx d, y + dy d)"
  using dir_unit[OF assms] by (auto simp: adjacent_def)

lemma passable_PATH: "cells g p = Some PATH \<Longrightarrow> passable g p"
  by (simp add: passable_def)

lemma carve_conn:
  "grid_ok c r (fst st) \<Longrightarrow> interior c r (x, y) \<Longrightarrow> conn (fst st) \<Longrightarrow> attach (fst st) (x, y)
     \<Longrightarrow> carve n c r x y st = Inr st' \<Longrightarrow> conn (fst st')"
  and carve_dirs_conn:
  "grid_ok c r (fst st) \<Longrightarrow> interior c r (x, y) \<Longrightarrow> unit_dirs ds \<Longrightarrow> conn (fst st)
     \<Longrightarrow> passable (fst st) (x, y)
     \<Longrightarrow> carve_dirs n c r x y ds st = Inr st' \<Longrightarrow> conn (fst st')"
proof (induction n c r x y st and n c r x y ds st arbitrary: st' and st'
       rule: carve_carve_dirs.induct)
  case (1 c r x y st)
  then show ?case by simp
next
  case (2 n c r x y g rg)
  obtain ds rg1 where sh: "shuffle DIRECTIONS rg = (ds, rg1)" by (cases "shuffle DIRECTIONS rg")
  let ?g1 = "set_cell g x y PATH"
  have ok: "grid_ok c r g" using "2.prems"(1) by simp
  have xy: "cells g (x, y) \<noteq> None"
    using cells_grid_ok[OF ok] interior_inb[OF "2.prems"(2)] by simp
  have c1: "conn ?g1" using "2.prems"(3,4) xy by (simp add: conn_set_cell)
  have p1: "passable ?g1 (x, y)" using xy by (simp add: passable_set_cell)
  have run: "carve_dirs n c r x y ds (?g1, rg1) = Inr st'"
    using "2.prems"(5) sh by simp
  show ?case
    using "2.IH"[OF refl refl sh[symmetric] _ "2.prems"(2) shuffle_dirs(1)[OF sh] _ _ run]
      grid_ok_set_cell[OF ok] c1 p1 by simp
next
  case (3 n c r x y st)
  then show ?case by auto
next
  case (4 n c r x y ds st)
  then show ?case by simp
next
  case (5 n c r x y d ds g rg)
  let ?nx = "x + dx d * 2" and ?ny = "y + dy d * 2"
  let ?cond = "?nx > 0 \<and> ?nx < c - 1 \<and> ?ny > 0 \<and> ?ny < r - 1 \<and> cell_at g ?nx ?ny = WALL"
  have ok: "grid_ok c r g" and cg: "conn g" and pxy: "passable g (x, y)"
    using "5.prems"(1,4,5) by simp_all
  have d: "d \<in> set DIRECTIONS" and uds: "unit_dirs ds"
    using "5.prems"(3) by (auto simp: unit_dirs_def)
  show ?case
  proof (cases ?cond)
    case True
    let ?g2 = "set_cell g (x + dx d) (y + dy d) PATH"
    have mid: "cells g (x + dx d, y + dy d) \<noteq> None"
      using cells_grid_ok[OF ok] interior_step[OF "5.prems"(2) d] by simp
    have c2: "carved c r g ?g2" using ok mid by (rule carved_set_cell)
    have "attach g (x + dx d, y + dy d)"
      unfolding attach_def using pxy adjacent_step(1)[OF d] by blast
    then have conn2: "conn ?g2" using cg mid by (simp add: conn_set_cell)
    have pm: "passable ?g2 (x + dx d, y + dy d)" using mid by (simp add: passable_set_cell)
    have att: "attach ?g2 (?nx, ?ny)"
      unfolding attach_def using pm adjacent_step(2)[OF d] by blast
    have int: "interior c r (?nx, ?ny)" using True by (simp add: interior_def)
    obtain st1 where r1: "carve n c r ?nx ?ny (?g2, rg) = Inr st1"
      and r2: "carve_dirs n c r x y ds st1 = Inr st'"
      using "5.prems"(6) True by (auto simp: Let_def split: sum.splits)
    have c3: "carved c r ?g2 (fst st1)"
      using carve_carved[OF _ int r1] carved_grid_ok[OF c2] by simp
    have conn3: "conn (fst st1)"
      using "5.IH"(1)[OF refl refl True _ int _ _ r1] carved_grid_ok[OF c2] conn2 att by simp
    have p3: "passable (fst st1) (x, y)"
      using carved_passable[OF c3] carved_passable[OF c2 pxy] by simp
    show ?thesis
      using "5.IH"(2)[OF refl refl True r1 carved_grid_ok[OF c3] "5.prems"(2) uds conn3 p3 r2] .
  next
    case False
    then have "carve_dirs n c r x y ds (g, rg) = Inr st'"
      using "5.prems"(6) by (auto simp: Let_def)
    from "5.IH"(3)[OF refl refl False "5.prems"(1,2) uds "5.prems"(4,5) this] show ?thesis .
  qed
qed

lemma settled_mono: "carved c r g g' \<Longrightarrow> settled c r g p \<Longrightarrow> settled c r g' p"
  unfolding settled_def using carved_passable by blast

lemma pending_mono:
  "carved c r g g' \<Longrightarrow> pending c r g' p \<Longrightarrow> passable g p \<Longrightarrow> pending c r g p"
  unfolding pending_def using settled_mono by blast

lemma node_step:
  assumes "node (x, y)" and "d \<in> set DIRECTIONS"
  shows "node (x + dx d * 2, y + dy d * 2)" and "\<not> node (x + dx d, y + dy d)"
  using assms by (auto simp: node_def DIRECTIONS_def)

lemma pending_set_cell:
  assumes ok: "grid_ok c r g" and a: "cells g (x, y) \<noteq> None"
    and p: "pending c r (set_cell g x y PATH) p"
  shows "pending c r g p \<or> p = (x, y)"
proof (cases "p = (x, y)")
  case False
  then have "passable g p" using p a by (simp add: pending_def passable_set_cell)
  then show ?thesis using pending_mono[OF carved_set_cell[OF ok a] p] by simp
qed simp

lemma carve_pending:
  "grid_ok c r (fst st) \<Longrightarrow> interior c r (x, y) \<Longrightarrow> node (x, y)
     \<Longrightarrow> carve n c r x y st = Inr st'
     \<Longrightarrow> \<forall>p. pending c r (fst st') p \<longrightarrow> pending c r (fst st) p \<and> p \<noteq> (x, y)"
  and carve_dirs_pending:
  "grid_ok c r (fst st) \<Longrightarrow> interior c r (x, y) \<Longrightarrow> node (x, y) \<Longrightarrow> unit_dirs ds
     \<Longrightarrow> carve_dirs n c r x y ds st = Inr st'
     \<Longrightarrow> (\<forall>p. pending c r (fst st') p \<longrightarrow> pending c r (fst st) p \<or> p = (x, y))
       \<and> (\<forall>d. Some d \<in> set ds \<longrightarrow> interior c r (x + dx d * 2, y + dy d * 2)
             \<longrightarrow> passable (fst st') (x + dx d * 2, y + dy d * 2))
       \<and> None \<notin> set ds"
proof (induction n c r x y st and n c r x y ds st arbitrary: st' and st'
       rule: carve_carve_dirs.induct)
  case (1 c r x y st)
  then show ?case by simp
next
  case (2 n c r x y g rg)
  obtain ds rg1 where sh: "shuffle DIRECTIONS rg = (ds, rg1)" by (cases "shuffle DIRECTIONS rg")
  let ?g1 = "set_cell g x y PATH"
  have ok: "grid_ok c r g" using "2.prems"(1) by simp
  have xy: "cells g (x, y) \<noteq> None"
    using cells_grid_ok[OF ok] interior_inb[OF "2.prems"(2)] by simp
  have run: "carve_dirs n c r x y ds (?g1, rg1) = Inr st'"
    using "2.prems"(4) sh by simp
  have ih: "(\<forall>p. pending c r (fst st') p \<longrightarrow> pending c r ?g1 p \<or> p = (x, y))
       \<and> (\<forall>d. Some d \<in> set ds \<longrightarrow> interior c r (x + dx d * 2, y + dy d * 2)
             \<longrightarrow> passable (fst st') (x + dx d * 2, y + dy d * 2))
       \<and> None \<notin> set ds"
    using "2.IH"[OF refl refl sh[symmetric] _ "2.prems"(2,3) shuffle_dirs(1)[OF sh] run]
      grid_ok_set_cell[OF ok] by simp
  have "settled c r (fst st') (x, y)"
    unfolding settled_def using ih shuffle_dirs(2)[OF sh] by simp
  then have notp: "\<not> pending c r (fst st') (x, y)" by (simp add: pending_def)
  show ?case
  proof (intro allI impI)
    fix p assume p: "pending c r (fst st') p"
    then have ne: "p \<noteq> (x, y)" using notp by auto
    from p ih have "pending c r ?g1 p" using ne by blast
    from pending_set_cell[OF ok xy this] ne
    show "pending c r (fst (g, rg)) p \<and> p \<noteq> (x, y)" by simp
  qed
next
  case (3 n c r x y st)
  then show ?case by auto
next
  case (4 n c r x y ds st)
  then show ?case by simp
next
  case (5 n c r x y d ds g rg)
  let ?nx = "x + dx d * 2" and ?ny = "y + dy d * 2"
  let ?cond = "?nx > 0 \<and> ?nx < c - 1 \<and> ?ny > 0 \<and> ?ny < r - 1 \<and> cell_at g ?nx ?ny = WALL"
  have ok: "grid_ok c r g" using "5.prems"(1) by simp
  have d: "d \<in> set DIRECTIONS" and uds: "unit_dirs ds"
    using "5.prems"(4) by (auto simp: unit_dirs_def)
  show ?case
  proof (cases ?cond)
    case True
    let ?g2 = "set_cell g (x + dx d) (y + dy d) PATH"
    have mid: "cells g (x + dx d, y + dy d) \<noteq> None"
      using cells_grid_ok[OF ok] interior_step[OF "5.prems"(2) d] by simp
    have c2: "carved c r g ?g2" using ok mid by (rule carved_set_cell)
    have int: "interior c r (?nx, ?ny)" using True by (simp add: interior_def)
    obtain st1 where r1: "carve n c r ?nx ?ny (?g2, rg) = Inr st1"
      and r2: "carve_dirs n c r x y ds st1 = Inr st'"
      using "5.prems"(5) True by (auto simp: Let_def split: sum.splits)
    have c3: "carved c r ?g2 (fst st1)" and n1: "cells (fst st1) (?nx, ?ny) = Some PATH"
      using carve_carved[OF _ int r1] carved_grid_ok[OF c2] by simp_all
    have c4: "carved c r (fst st1) (fst st')"
      using carve_dirs_carved[OF carved_grid_ok[OF c3] "5.prems"(2) uds r2] .
    have ih1: "\<forall>p. pending c r (fst st1) p \<longrightarrow> pending c r ?g2 p"
      using "5.IH"(1)[OF refl refl True _ int node_step(1)[OF "5.prems"(3) d] r1]
        carved_grid_ok[OF c2] by simp
    have ih2: "(\<forall>p. pending c r (fst st') p \<longrightarrow> pending c r (fst st1) p \<or> p = (x, y))
       \<and> (\<forall>d. Some d \<in> set ds \<longrightarrow> interior c r (x + dx d * 2, y + dy d * 2)
             \<longrightarrow> passable (fst st') (x + dx d * 2, y + dy d * 2))
       \<and> None \<notin> set ds"
      using "5.IH"(2)[OF refl refl True r1 carved_grid_ok[OF c3] "5.prems"(2,3) uds r2] .
    have g2: "pending c r g p" if "pending c r ?g2 p" for p
    proof -
      from that have "node p" by (simp add: pending_def)
      then have "p \<noteq> (x + dx d, y + dy d)" using node_step(2)[OF "5.prems"(3) d] by auto
      then show ?thesis using pending_set_cell[OF ok mid that] by simp
    qed
    have pn: "passable (fst st') (?nx, ?ny)"
      using carved_passable[OF c4 passable_PATH[OF n1]] .
    have A: "\<forall>p. pending c r (fst st') p \<longrightarrow> pending c r (fst (g, rg)) p \<or> p = (x, y)"
      unfolding fst_conv using ih1 ih2 g2 by blast
    have B: "\<forall>e. Some e \<in> set (Some d # ds) \<longrightarrow> interior c r (x + dx e * 2, y + dy e * 2)
             \<longrightarrow> passable (fst st') (x + dx e * 2, y + dy e * 2)"
      using ih2 pn by auto
    have C: "None \<notin> set (Some d # ds)" using ih2 by simp
    show ?thesis using A B C by blast
  next
    case False
    then have run: "carve_dirs n c r x y ds (g, rg) = Inr st'"
      using "5.prems"(5) by (auto simp: Let_def)
    have ih3: "(\<forall>p. pending c r (fst st') p \<longrightarrow> pending c r g p \<or> p = (x, y))
       \<and> (\<forall>d. Some d \<in> set ds \<longrightarrow> interior c r (x + dx d * 2, y + dy d * 2)
             \<longrightarrow> passable (fst st') (x + dx d * 2, y + dy d * 2))
       \<and> None \<notin> set ds"
      using "5.IH"(3)[OF refl refl False "5.prems"(1,2,3) uds run] by simp
    have c4: "carved c r g (fst st')"
      using carve_dirs_carved[OF "5.prems"(1,2) uds run] by simp
    have pn: "passable (fst st') (?nx, ?ny)" if int: "interior c r (?nx, ?ny)"
    proof -
      from int False have nw: "cell_at g ?nx ?ny \<noteq> WALL" by (simp add: interior_def)
      have "cells g (?nx, ?ny) = Some (cell_at g ?nx ?ny)"
        using cells_inb[OF ok interior_inb[OF int]] .
      then have "passable g (?nx, ?ny)" using nw
        by (cases "cell_at g ?nx ?ny") (simp_all add: passable_def)
      then show ?thesis by (rule carved_passable[OF c4])
    qed
    have A: "\<forall>p. pending c r (fst st') p \<longrightarrow> pending c r (fst (g, rg)) p \<or> p = (x, y)"
      unfolding fst_conv using ih3 by blast
    have B: "\<forall>e. Some e \<in> set (Some d # ds) \<longrightarrow> interior c r (x + dx e * 2, y + dy e * 2)
             \<longrightarrow> passable (fst st') (x + dx e * 2, y + dy e * 2)"
      using ih3 pn by auto
    have C: "None \<notin> set (Some d # ds)" using ih3 by simp
    show ?thesis using A B C by blast
  qed
qed

lemma column_open:
  assumes np: "\<And>p. \<not> pending c r g p" and sx: "odd sx" "0 < sx" "sx < c - 1"
    and start: "passable g (sx, 1)"
  shows "1 + 2 * int k \<le> r - 2 \<Longrightarrow> passable g (sx, 1 + 2 * int k)"
proof (induction k)
  case 0
  then show ?case using start by simp
next
  case (Suc k)
  then have prev: "passable g (sx, 1 + 2 * int k)" by simp
  have "node (sx, 1 + 2 * int k)" using sx(1) by (simp add: node_def)
  then have "settled c r g (sx, 1 + 2 * int k)" using np prev by (auto simp: pending_def)
  moreover have "\<lparr>dx = 0, dy = 1, dname = ''down''\<rparr> \<in> set DIRECTIONS" by (simp add: DIRECTIONS_def)
  moreover have "interior c r (sx, 1 + 2 * int k + 2)"
    using Suc.prems sx by (simp add: interior_def)
  ultimately have "passable g (sx, 1 + 2 * int k + 2)"
    unfolding settled_def by fastforce
  then show ?case by (simp add: algebra_simps)
qed

lemma generateMaze_props:
  assumes gm: "generateMaze m = Inr m'"
    and c: "odd (cols m)" "3 \<le> cols m" and r: "odd (rows m)" "3 \<le> rows m"
  shows "grid_ok (cols m) (rows m) (grid m')"
    and "conn (grid m')"
    and "\<exists>sx. 1 \<le> sx \<and> sx \<le> cols m - 2 \<and> (sx = cols m div 2 \<or> sx = cols m div 2 + 1)
           \<and> cells (grid m') (sx, 1) = Some PATH
           \<and> cells (grid m') (sx, rows m - 2) = Some PATH"
    and "m' = m\<lparr>grid := grid m', rng := rng m'\<rparr>"
proof -
  let ?c = "cols m" and ?r = "rows m"
  let ?g0 = "replicate (nat ?r) (replicate (nat ?c) WALL)"
  let ?sx = "if ?c div 2 mod 2 = 0 then ?c div 2 + 1 else ?c div 2"
  obtain g rg where run: "carve (nat (?c * ?r)) ?c ?r ?sx 1 (?g0, rng m) = Inr (g, rg)"
    and m': "m' = m\<lparr>grid := g, rng := rg\<rparr>"
    using gm by (auto simp: generateMaze_def Let_def split: sum.splits)
  have sx: "odd ?sx" "0 < ?sx" "?sx < ?c - 1" using c by presburger+
  have int: "interior ?c ?r (?sx, 1)" using sx r by (simp add: interior_def)
  have ok0: "grid_ok ?c ?r ?g0" by (rule grid_ok_replicate)
  have nopass: "\<not> passable ?g0 p" for p by (simp add: passable_def cells_replicate)
  have cv: "carved ?c ?r ?g0 g" and st: "cells g (?sx, 1) = Some PATH"
    using carve_carved[OF _ int run] ok0 by simp_all
  have conn0: "conn ?g0" by (rule connI) (simp add: nopass)
  have "attach ?g0 (?sx, 1)" by (simp add: attach_def nopass)
  then have cn: "conn g" using carve_conn[OF _ int _ _ run] ok0 conn0 by simp
  have "node (?sx, 1)" using sx(1) by (simp add: node_def)
  from carve_pending[OF _ int this run] ok0
  have "\<forall>p. pending ?c ?r g p \<longrightarrow> pending ?c ?r ?g0 p \<and> p \<noteq> (?sx, 1)" by simp
  then have np: "\<not> pending ?c ?r g p" for p using nopass unfolding pending_def by blast
  have "0 \<le> (?r - 3) div 2" and "1 + 2 * ((?r - 3) div 2) = ?r - 2" using r by presburger+
  then have keq: "1 + 2 * int (nat ((?r - 3) div 2)) = ?r - 2" by simp
  have "passable g (?sx, 1 + 2 * int (nat ((?r - 3) div 2)))"
    by (rule column_open[OF np sx passable_PATH[OF st]]) (use keq in linarith)
  then have pe: "passable g (?sx, ?r - 2)" unfolding keq .
  have "cells g (?sx, ?r - 2) = Some PATH"
  proof -
    from cv have "cells g (?sx, ?r - 2) = cells ?g0 (?sx, ?r - 2) \<or> cells g (?sx, ?r - 2) = Some PATH"
      unfolding carved_def by blast
    then show ?thesis using pe by (auto simp: passable_def cells_replicate split: if_splits)
  qed
  then have ex: "\<exists>sx. 1 \<le> sx \<and> sx \<le> ?c - 2 \<and> (sx = ?c div 2 \<or> sx = ?c div 2 + 1)
           \<and> cells g (sx, 1) = Some PATH \<and> cells g (sx, ?r - 2) = Some PATH"
    using st sx by (intro exI[of _ ?sx]) auto
  show "grid_ok (cols m) (rows m) (grid m')" using cv m' by (simp add: carved_def)
  show "conn (grid m')" using cn m' by simp
  show "\<exists>sx. 1 \<le> sx \<and> sx \<le> cols m - 2 \<and> (sx = cols m div 2 \<or> sx = cols m div 2 + 1)
           \<and> cells (grid m') (sx, 1) = Some PATH
           \<and> cells (grid m') (sx, rows m - 2) = Some PATH" using ex m' by simp
  show "m' = m\<lparr>grid := grid m', rng := rng m'\<rparr>" using m' by simp
qed

subsection \<open>Entry and exits\<close>

lemma nearest_fold:
  assumes "snd acc \<noteq> None \<longrightarrow> cell_at g (fst acc) row = PATH \<and> lo \<le> fst acc \<and> fst acc \<le> hi"
    and "\<forall>x \<in> set xs. lo \<le> x \<and> x \<le> hi"
  shows "(snd (fold (nearest_step g row t) xs acc) \<noteq> None \<longrightarrow>
            cell_at g (fst (fold (nearest_step g row t) xs acc)) row = PATH
            \<and> lo \<le> fst (fold (nearest_step g row t) xs acc)
            \<and> fst (fold (nearest_step g row t) xs acc) \<le> hi)
       \<and> (snd acc \<noteq> None \<or> (\<exists>x \<in> set xs. cell_at g x row = PATH)
            \<longrightarrow> snd (fold (nearest_step g row t) xs acc) \<noteq> None)"
  using assms
proof (induction xs arbitrary: acc)
  case Nil
  then show ?case by simp
next
  case (Cons x xs)
  let ?acc = "nearest_step g row t x acc"
  have a1: "snd ?acc \<noteq> None \<longrightarrow> cell_at g (fst ?acc) row = PATH \<and> lo \<le> fst ?acc \<and> fst ?acc \<le> hi"
    using Cons.prems by (auto simp: nearest_step_def Let_def split: option.splits)
  have a2: "\<forall>x \<in> set xs. lo \<le> x \<and> x \<le> hi" using Cons.prems(2) by simp
  have a3: "snd acc \<noteq> None \<or> cell_at g x row = PATH \<longrightarrow> snd ?acc \<noteq> None"
    by (auto simp: nearest_step_def Let_def split: option.splits)
  from Cons.IH[OF a1 a2] a3 show ?case by auto
qed

lemma nearest_path_found:
  assumes "1 \<le> x" "x \<le> c - 2" "cell_at g x (r - 2) = PATH"
  shows "cell_at g (nearest_path g c r t) (r - 2) = PATH
       \<and> 1 \<le> nearest_path g c r t \<and> nearest_path g c r t \<le> c - 2"
proof -
  have "snd (t, None :: int option) \<noteq> None \<longrightarrow>
          cell_at g (fst (t, None :: int option)) (r - 2) = PATH \<and> 1 \<le> fst (t, None :: int option)
          \<and> fst (t, None :: int option) \<le> c - 2" by simp
  moreover have "\<forall>x \<in> set [1..c - 2]. 1 \<le> x \<and> x \<le> c - 2" by simp
  moreover have "\<exists>x \<in> set [1..c - 2]. cell_at g x (r - 2) = PATH" using assms by auto
  ultimately show ?thesis
    using nearest_fold[of "(t, None)" g "r - 2" 1 "c - 2" "[1..c - 2]" t]
    unfolding nearest_path_def by blast
qed

lemma fold_invariant:
  assumes "P acc" and "\<And>x a. P a \<Longrightarrow> P (f x a)"
  shows "P (fold f xs acc)"
  using assms(1) by (induction xs arbitrary: acc) (simp_all add: assms(2))

lemma fold_unchanged:
  assumes "\<And>x. x \<in> set xs \<Longrightarrow> f x a = a"
  shows "fold f xs a = a"
  using assms by (induction xs) simp_all

lemma place_exit_length:
  "length (snd (fold (place_exit c r) ps acc)) = length (snd acc) + length ps"
  by (induction ps arbitrary: acc) (simp_all add: place_exit_def Let_def)

lemma createEntryAndExits_fields:
  "cols (createEntryAndExits m) = cols m"
  "rows (createEntryAndExits m) = rows m"
  "cellSize (createEntryAndExits m) = cellSize m"
  "width (createEntryAndExits m) = width m"
  "height (createEntryAndExits m) = height m"
  by (simp_all add: createEntryAndExits_def Let_def split: prod.splits)

lemma createEntryAndExits_props:
  assumes ok: "grid_ok (cols m) (rows m) (grid m)" and cn: "conn (grid m)"
    and c: "3 \<le> cols m" and r: "5 \<le> rows m"
    and sx: "1 \<le> sx" "sx \<le> cols m - 2" "sx = cols m div 2 \<or> sx = cols m div 2 + 1"
    and s1: "cells (grid m) (sx, 1) = Some PATH"
    and s2: "cells (grid m) (sx, rows m - 2) = Some PATH"
  shows "grid_ok (cols m) (rows m) (grid (createEntryAndExits m))"
    and "conn (grid (createEntryAndExits m))"
    and "cells (grid (createEntryAndExits m)) (cols m div 2, 0) = Some ENTRY"
    and "length (exitColumns (createEntryAndExits m)) = 5"
    and "\<forall>b \<in> set (exitColumns (createEntryAndExits m)).
           cells (grid (createEntryAndExits m)) (b, rows m - 1) = Some EXIT"
proof -
  let ?c = "cols m" and ?r = "rows m" and ?g = "grid m"
  let ?cx = "cols m div 2"
  let ?h = "set_cell ?g ?cx 1 PATH"
  let ?g1 = "set_cell ?g ?cx 0 ENTRY"
  let ?g2 = "set_cell ?g1 ?cx 1 PATH"
  have cx: "0 \<le> ?cx" "?cx < ?c" using c by presburger+
  have in0: "cells ?g (?cx, 0) \<noteq> None" and in1: "cells ?g (?cx, 1) \<noteq> None"
    using cells_grid_ok[OF ok] cx r by (simp_all add: inb_def)
  have in1': "cells ?g1 (?cx, 1) \<noteq> None" using in0 in1 by (simp add: cells_set_cell)
  have "attach ?g (?cx, 1)"
  proof (cases "sx = ?cx")
    case True
    then show ?thesis using s1 by (simp add: attach_def passable_def)
  next
    case False
    then have "sx = ?cx + 1" using sx(3) by simp
    then have "passable ?g (?cx + 1, 1)" "adjacent (?cx, 1) (?cx + 1, 1)"
      using s1 by (simp_all add: passable_def adjacent_def)
    then show ?thesis unfolding attach_def by blast
  qed
  then have conn_h: "conn ?h" using cn in1 by (simp add: conn_set_cell)
  have conn2: "conn ?g2"
  proof (rule conn_add[OF conn_h])
    show "passable ?g2 p = (passable ?h p \<or> p = (?cx, 0))" for p
      using in0 in1 in1' by (auto simp: passable_set_cell)
    have "passable ?h (?cx, 1)" "adjacent (?cx, 0) (?cx, 1)"
      using in1 by (simp_all add: passable_set_cell adjacent_def)
    then show "passable ?h (?cx, 0) \<or> (\<exists>q. passable ?h q \<and> adjacent (?cx, 0) q)
                \<or> (\<forall>q. \<not> passable ?h q)" by blast
  qed
  have ok2: "grid_ok ?c ?r ?g2" using ok by (simp add: grid_ok_set_cell)
  have e2: "cells ?g2 (?cx, 0) = Some ENTRY" using in0 in1' by (simp add: cells_set_cell)
  have p2: "cells ?g2 (sx, ?r - 2) = Some PATH"
    using in0 in1' s2 r by (simp add: cells_set_cell)
  define Inv where "Inv acc \<longleftrightarrow>
      grid_ok ?c ?r (fst acc) \<and> conn (fst acc) \<and> cells (fst acc) (sx, ?r - 2) = Some PATH
      \<and> cells (fst acc) (?cx, 0) = Some ENTRY
      \<and> (\<forall>b \<in> set (snd acc). cells (fst acc) (b, ?r - 2) = Some PATH
                               \<and> cells (fst acc) (b, ?r - 1) = Some EXIT)"
    for acc :: "grid \<times> int list"
  have step: "Inv (place_exit ?c ?r pos acc)" if inv: "Inv acc" for pos acc
  proof -
    let ?ga = "fst acc"
    let ?b = "nearest_path ?ga ?c ?r \<lfloor>pos * real_of_int ?c\<rfloor>"
    let ?gb = "set_cell ?ga ?b (?r - 1) EXIT"
    from inv have oka: "grid_ok ?c ?r ?ga" and cna: "conn ?ga"
      and sa: "cells ?ga (sx, ?r - 2) = Some PATH" and ea: "cells ?ga (?cx, 0) = Some ENTRY"
      and ba: "\<forall>b \<in> set (snd acc). cells ?ga (b, ?r - 2) = Some PATH
                               \<and> cells ?ga (b, ?r - 1) = Some EXIT"
      by (simp_all add: Inv_def)
    have b: "cell_at ?ga ?b (?r - 2) = PATH" "1 \<le> ?b" "?b \<le> ?c - 2"
      using nearest_path_found[OF sx(1,2) cells_cell_at[OF sa]] by simp_all
    have above: "cells ?ga (?b, ?r - 2) = Some PATH"
      using cells_inb[OF oka, of ?b "?r - 2"] b r by (simp add: inb_def)
    have inx: "cells ?ga (?b, ?r - 1) \<noteq> None"
      using cells_grid_ok[OF oka] b r by (simp add: inb_def)
    have "passable ?ga (?b, ?r - 2)" "adjacent (?b, ?r - 1) (?b, ?r - 2)"
      using above by (simp_all add: passable_def adjacent_def)
    then have "attach ?ga (?b, ?r - 1)" unfolding attach_def by blast
    then have cnb: "conn ?gb" using cna inx by (simp add: conn_set_cell)
    have pe: "place_exit ?c ?r pos acc = (?gb, snd acc @ [?b])"
      by (simp add: place_exit_def Let_def)
    show ?thesis
      unfolding pe Inv_def
      using oka cnb sa ea ba above inx r
      by (auto simp: grid_ok_set_cell cells_set_cell)
  qed
  obtain g3 ec where f: "fold (place_exit ?c ?r) exitPositions (?g2, []) = (g3, ec)"
    by (cases "fold (place_exit ?c ?r) exitPositions (?g2, [])")
  have "Inv (?g2, [])" using ok2 conn2 p2 e2 by (simp add: Inv_def)
  then have "Inv (fold (place_exit ?c ?r) exitPositions (?g2, []))"
    by (rule fold_invariant) (rule step)
  then have i3: "grid_ok ?c ?r g3" "conn g3" "cells g3 (?cx, 0) = Some ENTRY"
    "\<forall>b \<in> set ec. cells g3 (b, ?r - 2) = Some PATH \<and> cells g3 (b, ?r - 1) = Some EXIT"
    unfolding f by (simp_all add: Inv_def)
  have len: "length ec = 5"
    using place_exit_length[of ?c ?r exitPositions "(?g2, [])"] unfolding f
    by (simp add: exitPositions_def)
  have "fold (connect_exit ?r) ec g3 = g3"
  proof (rule fold_unchanged)
    fix col assume "col \<in> set ec"
    then have "cell_at g3 col (?r - 2) = PATH" using i3(4) cells_cell_at by blast
    then show "connect_exit ?r col g3 = g3" by (simp add: connect_exit_def)
  qed
  then have res: "createEntryAndExits m = m\<lparr>grid := g3, exitColumns := ec\<rparr>"
    using f by (simp add: createEntryAndExits_def Let_def)
  show "grid_ok (cols m) (rows m) (grid (createEntryAndExits m))" using i3(1) res by simp
  show "conn (grid (createEntryAndExits m))" using i3(2) res by simp
  show "cells (grid (createEntryAndExits m)) (cols m div 2, 0) = Some ENTRY" using i3(3) res by simp
  show "length (exitColumns (createEntryAndExits m)) = 5" using len res by simp
  show "\<forall>b \<in> set (exitColumns (createEntryAndExits m)).
           cells (grid (createEntryAndExits m)) (b, rows m - 1) = Some EXIT"
    using i3(4) res by simp
qed

subsection \<open>The initialised maze\<close>

lemma generateMaze_fields:
  "generateMaze m = Inr m' \<Longrightarrow> m' = m\<lparr>grid := grid m', rng := rng m'\<rparr>"
  by (auto simp: generateMaze_def Let_def split: sum.splits)

lemma init_Inr:
  assumes "init ecfg now m lvl cw ch = Inr m'"
  obtains m1 m2 where
    "cols m1 = 11 + lvl div 2 * 2" and "rows m1 = 13 + lvl div 3 * 2"
    and "20 \<le> cellSize m1"
    and "width m1 = cols m1 * cellSize m1" and "height m1 = rows m1 * cellSize m1"
    and "generateMaze m1 = Inr m2"
    and "m' = (buildWallRects (buildExitZones ecfg (createEntryAndExits m2)))
               \<lparr>entryX := real_of_int (width m2) / 2,
                entryY := real_of_int (cellSize m2) * (3 / 2)\<rparr>"
    and "cellSize m1 =
           max \<lfloor>min (round64 (round64 (cw - 40) / real_of_int (11 + lvl div 2 * 2)))
                     (round64 (round64 (round64 (ch - zoneHeight ecfg) - 40)
                                 / real_of_int (13 + lvl div 3 * 2)))\<rfloor> 20"
proof -
  let ?c = "11 + lvl div 2 * 2" and ?r = "13 + lvl div 3 * 2"
  let ?cs = "max \<lfloor>min (round64 (round64 (cw - 40) / real_of_int ?c))
                        (round64 (round64 (round64 (ch - zoneHeight ecfg) - 40) / real_of_int ?r))\<rfloor> 20"
  let ?m1 = "m\<lparr>level := lvl, cols := ?c, rows := ?r, cellSize := ?cs,
                 width := ?c * ?cs, height := ?r * ?cs, rng := \<lparr>seed = now\<rparr>\<rparr>"
  have odd: "?c mod 2 \<noteq> 0" "?r mod 2 \<noteq> 0" by presburger+
  have unf: "init ecfg now m lvl cw ch =
      (case generateMaze ?m1 of
         Inl e \<Rightarrow> Inl e
       | Inr m2 \<Rightarrow>
          (let m3 = buildWallRects (buildExitZones ecfg (createEntryAndExits m2))
           in Inr (m3\<lparr>entryX := real_of_int (width m3) / 2,
                      entryY := real_of_int (cellSize m3) * (3 / 2)\<rparr>)))"
    unfolding init_def Let_def by (simp only: odd if_False)
  from assms obtain m2 where g: "generateMaze ?m1 = Inr m2"
    and m': "m' = (let m3 = buildWallRects (buildExitZones ecfg (createEntryAndExits m2))
             in m3\<lparr>entryX := real_of_int (width m3) / 2,
                    entryY := real_of_int (cellSize m3) * (3 / 2)\<rparr>)"
    unfolding unf by (cases "generateMaze ?m1") (simp_all add: Let_def)
  have "m' = (buildWallRects (buildExitZones ecfg (createEntryAndExits m2)))
               \<lparr>entryX := real_of_int (width m2) / 2,
                entryY := real_of_int (cellSize m2) * (3 / 2)\<rparr>"
    using m' by (simp add: Let_def buildWallRects_def buildExitZones_def createEntryAndExits_fields)
  moreover have "cols ?m1 = ?c" "rows ?m1 = ?r" "20 \<le> cellSize ?m1"
    "width ?m1 = cols ?m1 * cellSize ?m1" "height ?m1 = rows ?m1 * cellSize ?m1"
    "cellSize ?m1 = ?cs" by simp_all
  ultimately show ?thesis using that[of ?m1 m2] g by blast
qed

text \<open>What every claim about an initialised maze needs of it.\<close>

lemma init_maze:
  assumes i: "init ecfg now m lvl cw ch = Inr m'" and l: "1 \<le> lvl"
  shows "cols m' = 11 + lvl div 2 * 2" and "rows m' = 13 + lvl div 3 * 2"
    and "20 \<le> cellSize m'"
    and "width m' = cols m' * cellSize m'" and "height m' = rows m' * cellSize m'"
    and "grid_ok (cols m') (rows m') (grid m')"
    and "conn (grid m')"
    and "cells (grid m') (cols m' div 2, 0) = Some ENTRY"
    and "length (exitColumns m') = 5"
    and "\<forall>b \<in> set (exitColumns m'). cells (grid m') (b, rows m' - 1) = Some EXIT"
proof -
  from i obtain m1 m2 where c1: "cols m1 = 11 + lvl div 2 * 2" and r1: "rows m1 = 13 + lvl div 3 * 2"
    and cs: "20 \<le> cellSize m1"
    and w: "width m1 = cols m1 * cellSize m1" and h: "height m1 = rows m1 * cellSize m1"
    and g: "generateMaze m1 = Inr m2"
    and m': "m' = (buildWallRects (buildExitZones ecfg (createEntryAndExits m2)))
               \<lparr>entryX := real_of_int (width m2) / 2,
                entryY := real_of_int (cellSize m2) * (3 / 2)\<rparr>"
    by (rule init_Inr)
  have oc: "odd (cols m1)" "3 \<le> cols m1" "odd (rows m1)" "3 \<le> rows m1" "5 \<le> rows m1"
    using c1 r1 l by presburger+
  note gp = generateMaze_props[OF g oc(1-4)]
  have f2: "cols m2 = cols m1" "rows m2 = rows m1" "cellSize m2 = cellSize m1"
    "width m2 = width m1" "height m2 = height m1"
    using generateMaze_fields[OF g] by (metis maze.select_convs maze.surjective maze.update_convs)+
  from gp(3) obtain sx where sx: "1 \<le> sx" "sx \<le> cols m2 - 2" "sx = cols m2 div 2 \<or> sx = cols m2 div 2 + 1"
    "cells (grid m2) (sx, 1) = Some PATH" "cells (grid m2) (sx, rows m2 - 2) = Some PATH"
    unfolding f2 by blast
  have ok2: "grid_ok (cols m2) (rows m2) (grid m2)" using gp(1) f2 by simp
  have c2: "3 \<le> cols m2" "5 \<le> rows m2" using oc f2 by simp_all
  note ce = createEntryAndExits_props[OF ok2 gp(2) c2 sx]
  have gm: "grid m' = grid (createEntryAndExits m2)"
    and ecm: "exitColumns m' = exitColumns (createEntryAndExits m2)"
    and fm: "cols m' = cols m2" "rows m' = rows m2" "cellSize m' = cellSize m2"
      "width m' = width m2" "height m' = height m2"
    unfolding m' by (simp_all add: buildWallRects_def buildExitZones_def createEntryAndExits_fields)
  show "cols m' = 11 + lvl div 2 * 2" "rows m' = 13 + lvl div 3 * 2" "20 \<le> cellSize m'"
    "width m' = cols m' * cellSize m'" "height m' = rows m' * cellSize m'"
    using fm f2 c1 r1 cs w h by simp_all
  show "grid_ok (cols m') (rows m') (grid m')" using ce(1) gm fm by simp
  show "conn (grid m')" using ce(2) gm by simp
  show "cells (grid m') (cols m' div 2, 0) = Some ENTRY" using ce(3) gm fm by simp
  show "length (exitColumns m') = 5" using ce(4) ecm by simp
  show "\<forall>b \<in> set (exitColumns m'). cells (grid m') (b, rows m' - 1) = Some EXIT"
    using ce(5) gm ecm fm by simp
qed


lemma init_cellSize:
  assumes i: "init ecfg now m lvl cw ch = Inr m'"
  shows "cellSize m' =
           max \<lfloor>min (round64 (round64 (cw - 40) / real_of_int (11 + lvl div 2 * 2)))
                     (round64 (round64 (round64 (ch - zoneHeight ecfg) - 40)
                                 / real_of_int (13 + lvl div 3 * 2)))\<rfloor> 20"
proof -
  from i obtain m1 m2 where g: "generateMaze m1 = Inr m2"
    and m': "m' = (buildWallRects (buildExitZones ecfg (createEntryAndExits m2)))
               \<lparr>entryX := real_of_int (width m2) / 2,
                entryY := real_of_int (cellSize m2) * (3 / 2)\<rparr>"
    and cs: "cellSize m1 =
           max \<lfloor>min (round64 (round64 (cw - 40) / real_of_int (11 + lvl div 2 * 2)))
                     (round64 (round64 (round64 (ch - zoneHeight ecfg) - 40)
                                 / real_of_int (13 + lvl div 3 * 2)))\<rfloor> 20"
    by (rule init_Inr)
  have "cellSize m2 = cellSize m1"
    using generateMaze_fields[OF g] by (metis maze.select_convs maze.surjective maze.update_convs)
  moreover have "cellSize m' = cellSize m2"
    unfolding m' by (simp add: buildWallRects_def buildExitZones_def createEntryAndExits_fields)
  ultimately show ?thesis using cs by simp
qed

subsection \<open>The recursion bound is never reached\<close>

lemma walls_box: "grid_ok c r g \<Longrightarrow> walls g \<subseteq> {0..<c} \<times> {0..<r}"
proof
  fix p assume ok: "grid_ok c r g" and "p \<in> walls g"
  then have "cells g p \<noteq> None" by (simp add: walls_def)
  then have "inb c r p" using cells_grid_ok[OF ok] by simp
  then show "p \<in> {0..<c} \<times> {0..<r}" by (cases p) (simp add: inb_def)
qed

lemma walls_finite: "grid_ok c r g \<Longrightarrow> finite (walls g)"
  by (rule finite_subset[OF walls_box]) simp_all

lemma walls_carved:
  assumes "carved c r g g'"
  shows "walls g' \<subseteq> walls g"
proof
  fix p assume p: "p \<in> walls g'"
  from assms have "cells g' p = cells g p \<or> cells g' p = Some PATH"
    unfolding carved_def by blast
  then show "p \<in> walls g" using p by (auto simp: walls_def)
qed

lemma card_walls_carved:
  "grid_ok c r g \<Longrightarrow> carved c r g g' \<Longrightarrow> card (walls g') \<le> card (walls g)"
  by (simp add: card_mono walls_carved walls_finite)

lemma card_walls_set_cell:
  assumes ok: "grid_ok c r g" and w: "cells g (x, y) = Some WALL" and n: "card (walls g) \<le> Suc n"
  shows "card (walls (set_cell g x y PATH)) \<le> n"
proof -
  have "walls (set_cell g x y PATH) = walls g - {(x, y)}"
    using w by (auto simp: walls_def cells_set_cell)
  moreover have "(x, y) \<in> walls g" using w by (simp add: walls_def)
  ultimately show ?thesis using n walls_finite[OF ok] by simp
qed

lemma carve_fuel:
  "grid_ok c r (fst st) \<Longrightarrow> interior c r (x, y) \<Longrightarrow> cells (fst st) (x, y) = Some WALL
     \<Longrightarrow> card (walls (fst st)) \<le> n \<Longrightarrow> carve n c r x y st \<noteq> Inl OutOfFuel"
  and carve_dirs_fuel:
  "grid_ok c r (fst st) \<Longrightarrow> interior c r (x, y) \<Longrightarrow> unit_dirs ds
     \<Longrightarrow> card (walls (fst st)) \<le> n \<Longrightarrow> carve_dirs n c r x y ds st \<noteq> Inl OutOfFuel"
proof (induction n c r x y st and n c r x y ds st rule: carve_carve_dirs.induct)
  case (1 c r x y st)
  have "(x, y) \<in> walls (fst st)" using "1.prems"(3) by (simp add: walls_def)
  then have "0 < card (walls (fst st))"
    using walls_finite[OF "1.prems"(1)] by (auto simp: card_gt_0_iff)
  then show ?case using "1.prems"(4) by simp
next
  case (2 n c r x y g rg)
  obtain ds rg1 where sh: "shuffle DIRECTIONS rg = (ds, rg1)" by (cases "shuffle DIRECTIONS rg")
  have ok: "grid_ok c r g" using "2.prems"(1) by simp
  have "card (walls (set_cell g x y PATH)) \<le> n"
    using card_walls_set_cell[OF ok] "2.prems"(3,4) by simp
  then have "carve_dirs n c r x y ds (set_cell g x y PATH, rg1) \<noteq> Inl OutOfFuel"
    using "2.IH"[OF refl refl sh[symmetric] _ "2.prems"(2) shuffle_dirs(1)[OF sh]]
      grid_ok_set_cell[OF ok] by simp
  then show ?case using sh by simp
next
  case (3 n c r x y st)
  then show ?case by simp
next
  case (4 n c r x y ds st)
  then show ?case by simp
next
  case (5 n c r x y d ds g rg)
  let ?nx = "x + dx d * 2" and ?ny = "y + dy d * 2"
  let ?cond = "?nx > 0 \<and> ?nx < c - 1 \<and> ?ny > 0 \<and> ?ny < r - 1 \<and> cell_at g ?nx ?ny = WALL"
  have ok: "grid_ok c r g" and cd: "card (walls g) \<le> n" using "5.prems"(1,4) by simp_all
  have d: "d \<in> set DIRECTIONS" and uds: "unit_dirs ds"
    using "5.prems"(3) by (auto simp: unit_dirs_def)
  show ?case
  proof (cases ?cond)
    case True
    let ?g2 = "set_cell g (x + dx d) (y + dy d) PATH"
    have mid: "cells g (x + dx d, y + dy d) \<noteq> None"
      using cells_grid_ok[OF ok] interior_step[OF "5.prems"(2) d] by simp
    have c2: "carved c r g ?g2" using ok mid by (rule carved_set_cell)
    have int: "interior c r (?nx, ?ny)" using True by (simp add: interior_def)
    have ne: "(?nx, ?ny) \<noteq> (x + dx d, y + dy d)" using dir_unit[OF d] by auto
    have "cells g (?nx, ?ny) = Some WALL"
      using cells_inb[OF ok interior_inb[OF int]] True by simp
    then have w2: "cells ?g2 (?nx, ?ny) = Some WALL" using mid ne by (simp add: cells_set_cell)
    have cd2: "card (walls ?g2) \<le> n" using card_walls_carved[OF ok c2] cd by simp
    have r1: "carve n c r ?nx ?ny (?g2, rg) \<noteq> Inl OutOfFuel"
      using "5.IH"(1)[OF refl refl True _ int] carved_grid_ok[OF c2] w2 cd2 by simp
    show ?thesis
    proof (cases "carve n c r ?nx ?ny (?g2, rg)")
      case (Inl e)
      then show ?thesis using r1 True by (simp add: Let_def)
    next
      case (Inr st1)
      have c3: "carved c r ?g2 (fst st1)"
        using carve_carved[OF _ int Inr] carved_grid_ok[OF c2] by simp
      have "card (walls (fst st1)) \<le> n"
        using card_walls_carved[OF carved_grid_ok[OF c2] c3] cd2 by simp
      from "5.IH"(2)[OF refl refl True Inr carved_grid_ok[OF c3] "5.prems"(2) uds this]
      show ?thesis using True Inr by (simp add: Let_def)
    qed
  next
    case False
    have "carve_dirs n c r x y (Some d # ds) (g, rg) = carve_dirs n c r x y ds (g, rg)"
      by (simp only: carve_dirs.simps Let_def if_not_P[OF False])
    with "5.IH"(3)[OF refl refl False "5.prems"(1,2) uds "5.prems"(4)]
    show ?thesis by simp
  qed
qed

lemma generateMaze_fuel:
  assumes c: "odd (cols m)" "3 \<le> cols m" and r: "odd (rows m)" "3 \<le> rows m"
  shows "generateMaze m \<noteq> Inl OutOfFuel"
proof -
  let ?c = "cols m" and ?r = "rows m"
  let ?g0 = "replicate (nat ?r) (replicate (nat ?c) WALL)"
  let ?sx = "if ?c div 2 mod 2 = 0 then ?c div 2 + 1 else ?c div 2"
  have sx: "0 < ?sx" "?sx < ?c - 1" using c by presburger+
  have int: "interior ?c ?r (?sx, 1)" using sx r by (simp add: interior_def)
  have ok0: "grid_ok ?c ?r ?g0" by (rule grid_ok_replicate)
  have w: "cells ?g0 (?sx, 1) = Some WALL"
    using interior_inb[OF int] by (simp add: cells_replicate)
  have "card (walls ?g0) \<le> card ({0..<?c} \<times> {0..<?r})"
    by (rule card_mono[OF _ walls_box[OF ok0]]) simp
  also have "\<dots> = nat ?c * nat ?r" by (simp add: card_cartesian_product)
  also have "\<dots> = nat (?c * ?r)" using c r by (simp add: nat_mult_distrib)
  finally have cd: "card (walls ?g0) \<le> nat (?c * ?r)" .
  have "carve (nat (?c * ?r)) ?c ?r ?sx 1 (?g0, rng m) \<noteq> Inl OutOfFuel"
    by (rule carve_fuel) (use ok0 int w cd in simp_all)
  then show ?thesis by (auto simp: generateMaze_def Let_def split: sum.splits)
qed

lemma init_fuel:
  assumes "1 \<le> lvl"
  shows "init ecfg now m lvl cw ch \<noteq> Inl OutOfFuel"
proof
  let ?c = "11 + lvl div 2 * 2" and ?r = "13 + lvl div 3 * 2"
  let ?cs = "max \<lfloor>min (round64 (round64 (cw - 40) / real_of_int ?c))
                        (round64 (round64 (round64 (ch - zoneHeight ecfg) - 40) / real_of_int ?r))\<rfloor> 20"
  let ?m1 = "m\<lparr>level := lvl, cols := ?c, rows := ?r, cellSize := ?cs,
                 width := ?c * ?cs, height := ?r * ?cs, rng := \<lparr>seed = now\<rparr>\<rparr>"
  assume a: "init ecfg now m lvl cw ch = Inl OutOfFuel"
  have odd: "?c mod 2 \<noteq> 0" "?r mod 2 \<noteq> 0" by presburger+
  have unf: "init ecfg now m lvl cw ch =
      (case generateMaze ?m1 of
         Inl e \<Rightarrow> Inl e
       | Inr m2 \<Rightarrow>
          (let m3 = buildWallRects (buildExitZones ecfg (createEntryAndExits m2))
           in Inr (m3\<lparr>entryX := real_of_int (width m3) / 2,
                      entryY := real_of_int (cellSize m3) * (3 / 2)\<rparr>)))"
    unfolding init_def Let_def by (simp only: odd if_False)
  from a have "generateMaze ?m1 = Inl OutOfFuel"
    unfolding unf by (cases "generateMaze ?m1") (simp_all add: Let_def)
  moreover have "odd ?c" "3 \<le> ?c" "odd ?r" "3 \<le> ?r" using assms by presburger+
  then have "odd (cols ?m1)" "3 \<le> cols ?m1" "odd (rows ?m1)" "3 \<le> rows ?m1" by simp_all
  ultimately show False using generateMaze_fuel by blast
qed

subsection \<open>Evaluation of the example\<close>

lemma init_carve:
  fixes lvl :: int
  defines "c \<equiv> 11 + lvl div 2 * 2" and "r \<equiv> 13 + lvl div 3 * 2"
  defines "sx \<equiv> (if c div 2 mod 2 = 0 then c div 2 + 1 else c div 2)"
  defines "run \<equiv> \<lambda>now. carve (nat (c * r)) c r sx 1
                          (replicate (nat r) (replicate (nat c) WALL), \<lparr>seed = now\<rparr>)"
  defines "exits \<equiv> \<lambda>g. fold (place_exit c r) exitPositions
                          (set_cell (set_cell g (c div 2) 0 ENTRY) (c div 2) 1 PATH, [])"
  shows "init ecfg now m lvl cw ch = Inl e \<Longrightarrow> run now = Inl e"
    and "init ecfg now m lvl cw ch = Inr m' \<Longrightarrow>
           \<exists>g rg. run now = Inr (g, rg)
              \<and> grid m' = fold (connect_exit r) (snd (exits g)) (fst (exits g))
              \<and> exitColumns m' = snd (exits g)"
proof -
  let ?cs = "max \<lfloor>min (round64 (round64 (cw - 40) / real_of_int c))
                        (round64 (round64 (round64 (ch - zoneHeight ecfg) - 40) / real_of_int r))\<rfloor> 20"
  let ?m1 = "m\<lparr>level := lvl, cols := c, rows := r, cellSize := ?cs,
                 width := c * ?cs, height := r * ?cs, rng := \<lparr>seed = now\<rparr>\<rparr>"
  have odd: "c mod 2 \<noteq> 0" "r mod 2 \<noteq> 0" unfolding c_def r_def by presburger+
  have unf: "init ecfg now m lvl cw ch =
      (case generateMaze ?m1 of
         Inl e \<Rightarrow> Inl e
       | Inr m2 \<Rightarrow>
          (let m3 = buildWallRects (buildExitZones ecfg (createEntryAndExits m2))
           in Inr (m3\<lparr>entryX := real_of_int (width m3) / 2,
                      entryY := real_of_int (cellSize m3) * (3 / 2)\<rparr>)))"
    unfolding init_def Let_def c_def[symmetric] r_def[symmetric] by (simp only: odd if_False)
  have gen: "generateMaze ?m1 =
      (case run now of Inl e \<Rightarrow> Inl e | Inr (g, rg) \<Rightarrow> Inr (?m1\<lparr>grid := g, rng := rg\<rparr>))"
    by (simp add: generateMaze_def Let_def run_def sx_def)
  show "run now = Inl e" if "init ecfg now m lvl cw ch = Inl e"
    using that unfolding unf gen by (cases "run now") (auto simp: Let_def)
  show "\<exists>g rg. run now = Inr (g, rg)
              \<and> grid m' = fold (connect_exit r) (snd (exits g)) (fst (exits g))
              \<and> exitColumns m' = snd (exits g)" if i: "init ecfg now m lvl cw ch = Inr m'"
  proof (cases "run now")
    case (Inl e)
    then show ?thesis using i unfolding unf gen by simp
  next
    case (Inr st)
    obtain g rg where st: "st = (g, rg)" by (cases st)
    let ?m2 = "?m1\<lparr>grid := g, rng := rg\<rparr>"
    have m': "m' = (buildWallRects (buildExitZones ecfg (createEntryAndExits ?m2)))
               \<lparr>entryX := real_of_int (width (buildWallRects (buildExitZones ecfg (createEntryAndExits ?m2)))) / 2,
                entryY := real_of_int (cellSize (buildWallRects (buildExitZones ecfg (createEntryAndExits ?m2)))) * (3 / 2)\<rparr>"
      using i unfolding unf gen Inr st by (simp add: Let_def)
    have g': "grid m' = grid (createEntryAndExits ?m2)"
      and e': "exitColumns m' = exitColumns (createEntryAndExits ?m2)"
      unfolding m' by (simp_all add: buildWallRects_def buildExitZones_def)
    have ce: "grid (createEntryAndExits ?m2) = fold (connect_exit r) (snd (exits g)) (fst (exits g))"
      "exitColumns (createEntryAndExits ?m2) = snd (exits g)"
      by (simp_all add: createEntryAndExits_def Let_def exits_def case_prod_unfold)
    show ?thesis using Inr st g' e' ce by simp
  qed
qed

lemma carve_eval:
  "carve (numeral k) c r x y (g, rg) =
     (case shuffle DIRECTIONS rg of
        (directions, rg1) \<Rightarrow> carve_dirs (pred_numeral k) c r x y directions (set_cell g x y PATH, rg1))"
  "carve (Suc n) c r x y (g, rg) =
     (case shuffle DIRECTIONS rg of
        (directions, rg1) \<Rightarrow> carve_dirs n c r x y directions (set_cell g x y PATH, rg1))"
  by (simp_all add: numeral_eq_Suc)

lemma carve_dirs_eval:
  "carve_dirs n c r x y (Some d # ds) (g, rg) =
     (if x + dx d * 2 > 0 \<and> x + dx d * 2 < c - 1 \<and> y + dy d * 2 > 0 \<and> y + dy d * 2 < r - 1
         \<and> cell_at g (x + dx d * 2) (y + dy d * 2) = WALL
      then (case carve n c r (x + dx d * 2) (y + dy d * 2) (set_cell g (x + dx d) (y + dy d) PATH, rg) of
              Inl e \<Rightarrow> Inl e
            | Inr st' \<Rightarrow> carve_dirs n c r x y ds st')
      else carve_dirs n c r x y ds (g, rg))"
  by (simp add: Let_def)

lemma shuffle_loop_eval:
  "shuffle_loop (Suc k) xs g =
     (case nextInt 0 (int (Suc k) + 1) g of
        (j, g') \<Rightarrow> shuffle_loop k (js_swap (Suc k) j xs) g')"
  by (simp add: Let_def)

lemma floor_scaled:
  "\<lfloor>real_of_int s / 2147483647 * real_of_int d\<rfloor> = (s * d) div 2147483647"
proof -
  have "real_of_int s / 2147483647 * real_of_int d
          = real_of_int (s * d) / real_of_int 2147483647" by simp
  then show ?thesis by (simp only: floor_divide_of_int_eq)
qed

lemma nextInt_eval:
  "nextInt mn mx \<lparr>seed = s\<rparr> =
     (case next_seed s of s' \<Rightarrow> ((s' * (mx - mn)) div 2147483647 + mn, \<lparr>seed = s'\<rparr>))"
  unfolding nextInt_def rng_next_def Let_def case_prod_conv floor_scaled by simp

lemma replicate_eval: "replicate (numeral k) x = x # replicate (pred_numeral k) x"
  by (simp add: numeral_eq_Suc)

lemmas eval_rules = shuffle_def DIRECTIONS_def nextInt_eval next_seed_def round53_def
  excess_bits_numeral excess_bits_small js_swap_def Let_def cell_at_def set_cell_def carve_eval
  carve_dirs_eval shuffle_loop_eval carve.simps(1) carve_dirs.simps(1,2) shuffle_loop.simps(1)
  replicate_eval

declare carve.simps [simp del] carve_dirs.simps [simp del] shuffle_loop.simps [simp del]

lemma createEntryAndExits_eval:
  "createEntryAndExits m =
     (case fold (place_exit (cols m) (rows m)) exitPositions
             (set_cell (set_cell (grid m) (cols m div 2) 0 ENTRY) (cols m div 2) 1 PATH, []) of
        (g3, exitCols) \<Rightarrow> m\<lparr>grid := fold (connect_exit (rows m)) exitCols g3, exitColumns := exitCols\<rparr>)"
  by (simp add: createEntryAndExits_def Let_def)

lemma place_exit_eval:
  "place_exit c r pos (g, cs) =
     (set_cell g (nearest_path g c r \<lfloor>pos * real_of_int c\<rfloor>) (r - 1) EXIT,
      cs @ [nearest_path g c r \<lfloor>pos * real_of_int c\<rfloor>])"
  by (simp add: place_exit_def Let_def)

lemma nearest_step_eval:
  "nearest_step g row t x (b, md) =
     (if cell_at g x row = PATH
      then (if (case md of None \<Rightarrow> True | Some d \<Rightarrow> \<bar>x - t\<bar> < d) then (x, Some \<bar>x - t\<bar>) else (b, md))
      else (b, md))"
  by (simp add: nearest_step_def Let_def)

lemma carve_example:
  "carve 143 11 13 5 1 (replicate 13 (replicate 11 WALL), \<lparr>seed = 1700000000000\<rparr>)
     = Inr (example_carved, \<lparr>seed = 710269440\<rparr>)"
  by (simp add: eval_rules example_carved_def)

lemma exits_example:
  "fold (place_exit 11 13) exitPositions
      (set_cell (set_cell example_carved 5 0 ENTRY) 5 1 PATH, [])
     = (example_grid, [1, 3, 5, 7, 9])"
  by (simp add: place_exit_eval nearest_path_def nearest_step_eval exitPositions_def
      example_carved_def example_grid_def cell_at_def set_cell_def upto.simps)

lemma connect_example: "fold (connect_exit 13) [1, 3, 5, 7, 9] example_grid = example_grid"
  by (simp add: connect_exit_def example_grid_def cell_at_def)

lemma level1_init:
  fixes cw ch :: real
  defines "run \<equiv> init example_exit_config 1700000000000 new_maze 1 cw ch"
  shows "run = Inr (projr run)"
    and "grid (projr run) = example_grid"
    and "exitColumns (projr run) = [1, 3, 5, 7, 9]"
proof -
  have run: "carve (nat ((11 + 1 div 2 * 2) * (13 + 1 div 3 * 2))) (11 + 1 div 2 * 2) (13 + 1 div 3 * 2)
               (if ((11 :: int) + 1 div 2 * 2) div 2 mod 2 = 0 then (11 + 1 div 2 * 2) div 2 + 1
                else (11 + 1 div 2 * 2) div 2) 1
               (replicate (nat (13 + 1 div 3 * 2)) (replicate (nat (11 + 1 div 2 * 2)) WALL),
                \<lparr>seed = 1700000000000\<rparr>)
             = Inr (example_carved, \<lparr>seed = 710269440\<rparr>)"
    using carve_example by simp
  show inr: "run = Inr (projr run)"
  proof (cases run)
    case (Inl e)
    from init_carve(1)[OF Inl[unfolded run_def]] run show ?thesis by simp
  next
    case (Inr m')
    then show ?thesis by (metis sum.sel(2))
  qed
  from init_carve(2)[OF inr[unfolded run_def]] run
  have "grid (projr run) = fold (connect_exit 13) (snd (example_grid, [1, 3, 5, 7, 9 :: int]))
                                        (fst (example_grid, [1, 3, 5, 7, 9 :: int]))
      \<and> exitColumns (projr run) = snd (example_grid, [1, 3, 5, 7, 9 :: int])"
    unfolding run_def[symmetric] by (simp add: exits_example)
  then have "grid (projr run) = fold (connect_exit 13) [1, 3, 5, 7, 9] example_grid
      \<and> exitColumns (projr run) = [1, 3, 5, 7, 9]"
    by (simp only: fst_conv snd_conv)
  then show "grid (projr run) = example_grid"
    "exitColumns (projr run) = [1, 3, 5, 7, 9]"
    unfolding connect_example by blast+
qed

lemma example_run_maze:
  "example_run = Inr (projr example_run)"
  "grid (projr example_run) = example_grid"
  "exitColumns (projr example_run) = [1, 3, 5, 7, 9]"
  unfolding example_run_def by (rule level1_init)+

lemma example_run_size:
  "cellSize (projr example_run) = 38" "width (projr example_run) = 418"
proof -
  have r: "init example_exit_config 1700000000000 new_maze 1 800 600 = Inr (projr example_run)"
    using example_run_maze(1) by (simp add: example_run_def)
  have "round64 (real_of_int 69) \<le> round64 (760 / 11)" by (intro round64_mono) simp_all
  moreover have "round64 (real_of_int 69) = real_of_int 69" by (rule round64_of_int) simp
  ultimately have a: "69 \<le> round64 (760 / 11)" by simp
  have b: "\<lfloor>round64 (500 / 13)\<rfloor> = 38" by (rule floor_round64_between) simp_all
  then have "round64 (500 / 13) < 39" by linarith
  then have "min (round64 (760 / 11)) (round64 (500 / 13)) = round64 (500 / 13)"
    using a by simp
  then show cs: "cellSize (projr example_run) = 38"
    using init_cellSize[OF r] b by (simp add: example_exit_config_def round64_numeral)
  show "width (projr example_run) = 418"
    using init_maze(1,4)[OF r] cs by simp
qed


section \<open>Claims about the maze generator\<close>

text \<open>
  C1. In every maze \<open>init\<close> produces, at any level from 1 to 10 and for any canvas size, the
  cell at the top centre is the Entry, five exit columns are recorded, each with an Exit
  cell in the last row, and a flood fill over Path, Entry and Exit cells from the entry
  cell reaches every Exit cell of the grid.
\<close>

theorem maze_connectivity:
  assumes "init ecfg now m lvl canvasWidth canvasHeight = Inr m'" and "1 \<le> lvl" and "lvl \<le> 10"
  shows "cells (grid m') (cols m' div 2, 0) = Some ENTRY
       \<and> length (exitColumns m') = 5
       \<and> (\<forall>b \<in> set (exitColumns m'). cells (grid m') (b, rows m' - 1) = Some EXIT)
       \<and> (\<forall>p. cells (grid m') p = Some EXIT \<longrightarrow> p \<in> flood (grid m') (cols m' div 2, 0))"
proof -
  note f = init_maze[OF assms(1,2)]
  have "p \<in> flood (grid m') (cols m' div 2, 0)" if "cells (grid m') p = Some EXIT" for p
    using connD[OF f(7)] f(8) that by (simp add: passable_def)
  then show ?thesis using f(8,9,10) by blast
qed

theorem maze_connectivity_witness:
  "example_run = Inr (projr example_run) \<and> (1 :: int) \<le> 1 \<and> (1 :: int) \<le> 10
   \<and> cells (grid (projr example_run)) (5, 0) = Some ENTRY
   \<and> cells (grid (projr example_run)) (9, 12) = Some EXIT
   \<and> (9, 12) \<in> flood (grid (projr example_run)) (5, 0)"
proof -
  have r: "init example_exit_config 1700000000000 new_maze 1 800 600 = Inr (projr example_run)"
    using example_run_maze(1) by (simp add: example_run_def)
  have c: "cols (projr example_run) div 2 = 5"
    using init_maze(1)[OF r] by simp
  have e: "cells (grid (projr example_run)) (9, 12) = Some EXIT"
    unfolding example_run_maze(2) by (simp add: cells_def example_grid_def cell_at_def)
  from maze_connectivity[OF r] c e example_run_maze(1) show ?thesis by simp
qed




section \<open>Claims about \<open>isWall\<close>\<close>

text \<open>
  C4. \<open>isWall\<close> is meant to be true at every point outside the maze, above it (\<open>y < 0\<close>)
  included. It is false at one: in every initialised maze of levels 1 to 10, at the left
  edge of the entry column and at the height \<open>y = -2^-1074\<close>, the negative double nearest
  to zero. The quotient \<open>y / cellSize\<close> underflows to zero, the test \<open>row < 0\<close> does
  not fire, and the cell read is the Entry of row \<open>0\<close>, which is not a Wall.
\<close>

theorem isWall_underflow:
  assumes "init ecfg now m lvl canvasWidth canvasHeight = Inr m'" and "1 \<le> lvl" and "lvl \<le> 10"
  shows "- (2 powr (- 1074)) < (0 :: real)
       \<and> \<not> isWall m' (real_of_int (cols m' div 2 * cellSize m')) (- (2 powr (- 1074)))"
proof -
  note f = init_maze[OF assms(1,2)]
  let ?cs = "real_of_int (cellSize m')"
  let ?cx = "cols m' div 2"
  have cs: "20 \<le> ?cs" using f(3) by simp
  have cx: "0 \<le> ?cx" "?cx < cols m'" "?cx < 2 ^ 53" "0 < rows m'"
    using f(1,2) assms(2,3) by simp_all
  have "real_of_int (?cx * cellSize m') / ?cs = real_of_int ?cx" using cs by simp
  moreover have "round64 (real_of_int ?cx) = real_of_int ?cx"
    using cx(1,3) by (intro round64_of_int) simp
  ultimately have col: "\<lfloor>round64 (real_of_int (?cx * cellSize m') / ?cs)\<rfloor> = ?cx" by simp
  have h: "2 powr (- 1075) = 2 powr (- 1074) / (2 :: real)"
    by (simp add: powr_minus field_simps)
  have "2 powr (- 1074) / ?cs \<le> 2 powr (- 1074) / 20"
    using cs by (intro divide_left_mono) simp_all
  also have "\<dots> < 2 powr (- 1074) / 2"
    by (intro divide_strict_left_mono) simp_all
  finally have "2 powr (- 1074) / ?cs < 2 powr (- 1075)" unfolding h .
  moreover have "\<bar>- (2 powr (- 1074)) / ?cs\<bar> = 2 powr (- 1074) / ?cs" using cs by simp
  ultimately have "\<bar>- (2 powr (- 1074)) / ?cs\<bar> < 2 powr (- 1075)" by simp
  then have "round64 (- (2 powr (- 1074)) / ?cs) = 0" by (rule round64_underflow)
  then have row: "\<lfloor>round64 (- (2 powr (- 1074)) / ?cs)\<rfloor> = 0" by simp
  have "cell_at (grid m') ?cx 0 = ENTRY" using f(8) by (rule cells_cell_at)
  then have "\<not> isWall m' (real_of_int (?cx * cellSize m')) (- (2 powr (- 1074)))"
    unfolding isWall_def Let_def col row using cx by simp
  then show ?thesis by simp
qed

theorem isWall_underflow_witness:
  "example_run = Inr (projr example_run) \<and> (1 :: int) \<le> 1 \<and> (1 :: int) \<le> 10
   \<and> cols (projr example_run) = 11
   \<and> cellSize (projr example_run) = 38
   \<and> cell_at (grid (projr example_run)) 5 0 = ENTRY
   \<and> \<not> isWall (projr example_run) 190 (- (2 powr (- 1074)))"
proof -
  have r: "init example_exit_config 1700000000000 new_maze 1 800 600 = Inr (projr example_run)"
    using example_run_maze(1) by (simp add: example_run_def)
  have c: "cols (projr example_run) = 11"
    using init_maze(1)[OF r] by simp
  have e: "cell_at (grid (projr example_run)) 5 0 = ENTRY"
    unfolding example_run_maze(2) by (simp add: example_grid_def cell_at_def)
  from isWall_underflow[OF r] c e example_run_maze(1) example_run_size(1) show ?thesis by simp
qed

end
